theory Spec2Isabelle
  imports Main "HOL-Library.Word"
begin

section \<open>Values and the object store\<close>

text \<open>
  JavaScript values as the library handles them. Primitives are immediate; objects,
  arrays and dates live in a store and are held by reference, so that two properties can
  share one object and an assignment through one reference is seen through every other.
  Numbers are the integers and the three non-finite doubles; strings are sequences of
  8-bit characters. Functions, accessors and symbols do not occur in the data the
  library is given, and properties inherited from \<open>Object.prototype\<close> are left out of
  property reads (the one lookup where they matter, the classification table, names them).
\<close>

datatype num = Intg int | NaN | Infinity | NegInfinity

datatype jsval = JUndefined | JNull | JBool bool | JNum num | JStr string | JRef nat

datatype error = TypeError | DecryptionFailed | NoConsentRecords

text \<open>
  A field classification as \<open>loadFieldClassifications\<close> and \<open>inferClassification\<close> build
  it; \<open>None\<close> is a property the object literal does not have. \<open>classifyData\<close> adds the
  field name (and a masked copy of the value for display, which nothing in the library
  reads and which is left out here).
\<close>

record field_class =
  ctype :: "string option"
  sensitivity :: "string option"
  laws :: "string list option"
  recommendation :: "string option"
  encryptionRequired :: "bool option"
  retentionDays :: "nat option"

record classification = field_class +
  field :: string

text \<open>
  The metadata of one \<open>process\<close> call: \<open>complianceMeta\<close> as returned, and its extension
  attached to the record as the non-enumerable \<open>_compliance\<close> property.
\<close>

record compliance_meta =
  processedAt :: int
  applicableLaws :: "string list"
  actions :: "string list"
  dataRights :: "string list"

record compliance_attached = compliance_meta +
  classifications :: "classification list"
  attachedProcessingTime :: int

text \<open>
  A cell of the store is an object: its enumerable own properties in insertion order,
  its non-enumerable own properties, and what kind of object it is. An array keeps its
  elements apart from its named properties; the attached metadata is one cell.
\<close>

datatype kind = Plain | Elems "jsval list" | DateMs int | Attached compliance_attached

record cell =
  props :: "(string \<times> jsval) list"
  hidden :: "(string \<times> jsval) list"
  kind :: kind

record world =
  heap :: "cell list"
  tick :: nat

definition plain :: "(string \<times> jsval) list \<Rightarrow> cell" where
  "plain ps = \<lparr>props = ps, hidden = [], kind = Plain\<rparr>"

definition array :: "jsval list \<Rightarrow> cell" where
  "array xs = \<lparr>props = [], hidden = [], kind = Elems xs\<rparr>"

text \<open>
  An address outside the store is held by no value the program can build; a read there
  sees an object without properties.
\<close>

definition cell_at :: "cell list \<Rightarrow> nat \<Rightarrow> cell" where
  "cell_at h a = (if a < length h then h ! a else plain [])"

fun truthy :: "jsval \<Rightarrow> bool" where
  "truthy JUndefined = False"
| "truthy JNull = False"
| "truthy (JBool b) = b"
| "truthy (JNum n) = (n \<noteq> Intg 0 \<and> n \<noteq> NaN)"
| "truthy (JStr s) = (s \<noteq> [])"
| "truthy (JRef a) = True"

definition js_or :: "jsval \<Rightarrow> jsval \<Rightarrow> jsval" where
  "js_or a b = (if truthy a then a else b)"

subsection \<open>Strings\<close>

text \<open>\<open>toUpperCase\<close>, \<open>toLowerCase\<close> and \<open>includes\<close> of \<open>String.prototype\<close>, and decimal numerals.\<close>

definition upper_char :: "char \<Rightarrow> char" where
  "upper_char c =
     (case map_of (zip ''abcdefghijklmnopqrstuvwxyz'' ''ABCDEFGHIJKLMNOPQRSTUVWXYZ'') c of
        Some u \<Rightarrow> u | None \<Rightarrow> c)"

definition lower_char :: "char \<Rightarrow> char" where
  "lower_char c =
     (case map_of (zip ''ABCDEFGHIJKLMNOPQRSTUVWXYZ'' ''abcdefghijklmnopqrstuvwxyz'') c of
        Some l \<Rightarrow> l | None \<Rightarrow> c)"

definition toUpperCase :: "string \<Rightarrow> string" where
  "toUpperCase s = map upper_char s"

definition toLowerCase :: "string \<Rightarrow> string" where
  "toLowerCase s = map lower_char s"

fun starts_with :: "string \<Rightarrow> string \<Rightarrow> bool" where
  "starts_with s [] = True"
| "starts_with [] (c # cs) = False"
| "starts_with (a # as) (c # cs) = (a = c \<and> starts_with as cs)"

fun includes_str :: "string \<Rightarrow> string \<Rightarrow> bool" where
  "includes_str [] sub = (sub = [])"
| "includes_str (a # as) sub = (starts_with (a # as) sub \<or> includes_str as sub)"

definition digit_char :: "nat \<Rightarrow> char" where
  "digit_char n = ''0123456789abcdef'' ! n"

function dec :: "nat \<Rightarrow> string" where
  "dec n = (if n < 10 then [digit_char n] else dec (n div 10) @ [digit_char (n mod 10)])"
  by pat_completeness auto
termination
  by (relation "measure id") auto

subsection \<open>Property access\<close>

text \<open>The index properties of an array (or of a string's characters), in order.\<close>

definition indexed :: "jsval list \<Rightarrow> (string \<times> jsval) list" where
  "indexed xs = zip (map dec [0..<length xs]) xs"

definition elem_props :: "kind \<Rightarrow> (string \<times> jsval) list" where
  "elem_props k = (case k of Elems xs \<Rightarrow> indexed xs | _ \<Rightarrow> [])"

text \<open>
  \<open>v[k]\<close> for a value that is neither \<open>undefined\<close> nor \<open>null\<close>: an own property of the
  object, the \<open>length\<close> of an array or a string, \<open>undefined\<close> otherwise.
\<close>

definition read_prop :: "cell list \<Rightarrow> jsval \<Rightarrow> string \<Rightarrow> jsval" where
  "read_prop h v k =
     (case v of
        JRef a \<Rightarrow>
          (let c = cell_at h a in
           case map_of (elem_props (kind c) @ props c @ hidden c) k of
             Some x \<Rightarrow> x
           | None \<Rightarrow>
               (case kind c of
                  Elems xs \<Rightarrow> if k = ''length'' then JNum (Intg (int (length xs))) else JUndefined
                | _ \<Rightarrow> JUndefined))
      | JStr s \<Rightarrow>
          (case map_of (indexed (map (\<lambda>c. JStr [c]) s)) k of
             Some x \<Rightarrow> x
           | None \<Rightarrow> if k = ''length'' then JNum (Intg (int (length s))) else JUndefined)
      | _ \<Rightarrow> JUndefined)"

text \<open>\<open>v.k\<close>: a \<open>TypeError\<close> on \<open>undefined\<close> and \<open>null\<close>.\<close>

definition get :: "cell list \<Rightarrow> jsval \<Rightarrow> string \<Rightarrow> error + jsval" where
  "get h v k = (if v = JUndefined \<or> v = JNull then Inl TypeError else Inr (read_prop h v k))"

text \<open>The enumerable own properties: what \<open>Object.entries\<close> lists and \<open>{...v}\<close> copies.\<close>

definition entries :: "cell list \<Rightarrow> jsval \<Rightarrow> (string \<times> jsval) list" where
  "entries h v =
     (case v of
        JRef a \<Rightarrow> (let c = cell_at h a in elem_props (kind c) @ props c)
      | JStr s \<Rightarrow> indexed (map (\<lambda>c. JStr [c]) s)
      | _ \<Rightarrow> [])"

fun put :: "string \<Rightarrow> jsval \<Rightarrow> (string \<times> jsval) list \<Rightarrow> (string \<times> jsval) list" where
  "put k v [] = [(k, v)]"
| "put k v (p # ps) = (if fst p = k then (k, v) # ps else p # put k v ps)"

text \<open>
  \<open>o[k] = v\<close> on an object of the store: the property is replaced where it stands or
  added last.
\<close>

definition write_prop :: "cell list \<Rightarrow> nat \<Rightarrow> string \<Rightarrow> jsval \<Rightarrow> cell list" where
  "write_prop h a k v = h[a := (cell_at h a)\<lparr>props := put k v (props (cell_at h a))\<rparr>]"

text \<open>
  \<open>o.k = v\<close> in strict code (class bodies are strict): a \<open>TypeError\<close> when \<open>o\<close> is not an
  object, or when \<open>k\<close> is a non-writable property (the attached metadata is the only one).
  Assignments to an array's indices or length do not occur in the library.
\<close>

definition assign :: "cell list \<Rightarrow> jsval \<Rightarrow> string \<Rightarrow> jsval \<Rightarrow> error + cell list" where
  "assign h obj k v =
     (case obj of
        JRef a \<Rightarrow>
          if map_of (hidden (cell_at h a)) k \<noteq> None then Inl TypeError
          else Inr (write_prop h a k v)
      | _ \<Rightarrow> Inl TypeError)"

text \<open>\<open>delete o.k\<close> on an object of the store.\<close>

definition delete_prop :: "cell list \<Rightarrow> nat \<Rightarrow> string \<Rightarrow> cell list" where
  "delete_prop h a k =
     h[a := (cell_at h a)\<lparr>props := filter (\<lambda>p. fst p \<noteq> k) (props (cell_at h a))\<rparr>]"

text \<open>
  \<open>Object.defineProperty(o, k, {value: v, enumerable: false, configurable: true})\<close>.
\<close>

definition define_hidden :: "cell list \<Rightarrow> nat \<Rightarrow> string \<Rightarrow> jsval \<Rightarrow> cell list" where
  "define_hidden h a k v =
     h[a := (cell_at h a)\<lparr>props := filter (\<lambda>p. fst p \<noteq> k) (props (cell_at h a)),
                           hidden := put k v (hidden (cell_at h a))\<rparr>]"

text \<open>\<open>k in o\<close>: a \<open>TypeError\<close> when \<open>o\<close> is not an object.\<close>

definition has_prop :: "cell list \<Rightarrow> jsval \<Rightarrow> string \<Rightarrow> error + bool" where
  "has_prop h obj k =
     (case obj of
        JRef a \<Rightarrow>
          (let c = cell_at h a in
           Inr (map_of (elem_props (kind c) @ props c @ hidden c) k \<noteq> None
                \<or> (k = ''length'' \<and> (case kind c of Elems xs \<Rightarrow> True | _ \<Rightarrow> False))))
      | _ \<Rightarrow> Inl TypeError)"

text \<open>\<open>{...v}\<close>: a new plain object with the enumerable own properties of \<open>v\<close>.\<close>

definition spread :: "cell list \<Rightarrow> jsval \<Rightarrow> jsval \<times> cell list" where
  "spread h v = (JRef (length h), h @ [plain (entries h v)])"

text \<open>\<open>a.push(v)\<close>: a \<open>TypeError\<close> unless \<open>a\<close> is an array.\<close>

definition push :: "cell list \<Rightarrow> jsval \<Rightarrow> jsval \<Rightarrow> error + cell list" where
  "push h arr v =
     (case arr of
        JRef a \<Rightarrow>
          (case kind (cell_at h a) of
             Elems xs \<Rightarrow> Inr (h[a := (cell_at h a)\<lparr>kind := Elems (xs @ [v])\<rparr>])
           | _ \<Rightarrow> Inl TypeError)
      | _ \<Rightarrow> Inl TypeError)"

section \<open>The runtime\<close>

text \<open>
  What the library takes from Node and from its configuration rather than computes: the
  master key, \<open>crypto.randomBytes\<close> and the clock (both read at the world's tick, which
  every read advances), \<open>pbkdf2Sync\<close> with its fixed parameters (100000 iterations, 32
  bytes, SHA-256), AES-256-GCM (encryption gives the ciphertext and the tag; decryption
  gives \<open>None\<close> where \<open>createDecipheriv\<close>, \<open>setAuthTag\<close>, \<open>update\<close> or \<open>final\<close> throws),
  \<open>Buffer.from\<close> of an object, \<open>JSON.stringify\<close> (\<open>None\<close> where it throws) and \<open>JSON.parse\<close>
  (\<open>None\<close> on a syntax error), and the number a string or an object converts to in a
  comparison.
\<close>

datatype json =
    JsNull | JsBool bool | JsNum num | JsStr string
  | JsArr "json list" | JsObj "(string \<times> json) list"

type_synonym byte = "8 word"

record env =
  masterKey :: string
  randomBytes :: "nat \<Rightarrow> nat \<Rightarrow> byte list"
  clock :: "nat \<Rightarrow> int"
  toISOString :: "int \<Rightarrow> string"
  pbkdf2Sync :: "string \<Rightarrow> byte list \<Rightarrow> byte list"
  gcm_encrypt :: "byte list \<Rightarrow> byte list \<Rightarrow> string \<Rightarrow> byte list \<times> byte list"
  gcm_decrypt :: "byte list \<Rightarrow> byte list \<Rightarrow> byte list \<Rightarrow> byte list \<Rightarrow> string option"
  bufferFrom :: "cell list \<Rightarrow> nat \<Rightarrow> byte list option"
  json_stringify :: "cell list \<Rightarrow> jsval \<Rightarrow> string option"
  json_parse :: "string \<Rightarrow> json option"
  toNumber :: "cell list \<Rightarrow> jsval \<Rightarrow> num"

text \<open>The value \<open>JSON.parse\<close> returns, built in the store from the parsed text.\<close>

fun alloc_json :: "json \<Rightarrow> cell list \<Rightarrow> jsval \<times> cell list"
  and alloc_jsons :: "json list \<Rightarrow> cell list \<Rightarrow> jsval list \<times> cell list"
  and alloc_members :: "(string \<times> json) list \<Rightarrow> cell list \<Rightarrow> (string \<times> jsval) list \<times> cell list"
where
  "alloc_json JsNull h = (JNull, h)"
| "alloc_json (JsBool b) h = (JBool b, h)"
| "alloc_json (JsNum n) h = (JNum n, h)"
| "alloc_json (JsStr s) h = (JStr s, h)"
| "alloc_json (JsArr xs) h =
     (case alloc_jsons xs h of (vs, h') \<Rightarrow> (JRef (length h'), h' @ [array vs]))"
| "alloc_json (JsObj ms) h =
     (case alloc_members ms h of (ps, h') \<Rightarrow> (JRef (length h'), h' @ [plain ps]))"
| "alloc_jsons [] h = ([], h)"
| "alloc_jsons (x # xs) h =
     (case alloc_json x h of (v, h1) \<Rightarrow>
        case alloc_jsons xs h1 of (vs, h2) \<Rightarrow> (v # vs, h2))"
| "alloc_members [] h = ([], h)"
| "alloc_members (m # ms) h =
     (case alloc_json (snd m) h of (v, h1) \<Rightarrow>
        case alloc_members ms h1 of (ps, h2) \<Rightarrow> (put (fst m) v ps, h2))"

subsection \<open>Hexadecimal\<close>

text \<open>
  \<open>buf.toString('hex')\<close>, and \<open>Buffer.from(s, 'hex')\<close>, which reads pairs of digits in
  either case and stops at the first pair that is not hexadecimal.
\<close>

definition hex_byte :: "byte \<Rightarrow> string" where
  "hex_byte b = [digit_char (unat b div 16), digit_char (unat b mod 16)]"

definition toHex :: "byte list \<Rightarrow> string" where
  "toHex bs = concat (map hex_byte bs)"



section \<open>DataEncryptor\<close>

text \<open>
  The encryptor with its default configuration (\<open>aes-256-gcm\<close>, 16-byte IV and salt).
\<close>

text \<open>
  \<open>DataEncryptor.encrypt\<close>. The \<open>try\<close> block fails where \<open>JSON.stringify\<close> throws; the
  \<open>catch\<close> then returns the value as it came.
\<close>

definition encrypt :: "env \<Rightarrow> world \<Rightarrow> jsval \<Rightarrow> string \<Rightarrow> jsval \<times> world" where
  "encrypt E w v fieldName =
     (if v = JNull \<or> v = JUndefined then (v, w)
      else
        (case (case v of JStr s \<Rightarrow> Some s | _ \<Rightarrow> json_stringify E (heap w) v) of
           None \<Rightarrow> (v, w)
         | Some stringValue \<Rightarrow>
             (let iv = randomBytes E (tick w) 16;
                  salt = randomBytes E (tick w + 1) 16;
                  key = pbkdf2Sync E (masterKey E) salt;
                  sealed = gcm_encrypt E key iv stringValue;
                  obj = plain
                    [(''_encrypted'', JBool True),
                     (''version'', JStr ''1.0''),
                     (''algorithm'', JStr ''aes-256-gcm''),
                     (''data'', JStr (toHex (fst sealed))),
                     (''iv'', JStr (toHex iv)),
                     (''salt'', JStr (toHex salt)),
                     (''authTag'', JStr (toHex (snd sealed))),
                     (''field'', JStr fieldName),
                     (''encryptedAt'', JStr (toISOString E (clock E (tick w + 2))))]
              in (JRef (length (heap w)), \<lparr>heap = heap w @ [obj], tick = tick w + 3\<rparr>))))"



definition isEncrypted :: "cell list \<Rightarrow> jsval \<Rightarrow> bool" where
  "isEncrypted h v = (case v of JRef a \<Rightarrow> read_prop h v ''_encrypted'' = JBool True | _ \<Rightarrow> False)"

text \<open>
  \<open>DataEncryptor.autoEncryptSensitiveFields\<close>: the loop over the classifications, on the
  copy \<open>d\<close> of the record.
\<close>

fun encrypt_fields :: "env \<Rightarrow> nat \<Rightarrow> classification list \<Rightarrow> world \<Rightarrow> world" where
  "encrypt_fields E d [] w = w"
| "encrypt_fields E d (c # cs) w =
     (let cur = read_prop (heap w) (JRef d) (field c) in
      if encryptionRequired c = Some True \<and> truthy cur \<and> \<not> isEncrypted (heap w) cur
      then
        (case encrypt E w cur (field c) of
           (v, w1) \<Rightarrow> encrypt_fields E d cs (w1\<lparr>heap := write_prop (heap w1) d (field c) v\<rparr>))
      else encrypt_fields E d cs w)"

definition autoEncryptSensitiveFields ::
  "env \<Rightarrow> world \<Rightarrow> jsval \<Rightarrow> classification list \<Rightarrow> jsval \<times> world" where
  "autoEncryptSensitiveFields E w data cs =
     (case spread (heap w) data of
        (encryptedData, h1) \<Rightarrow>
          (encryptedData, encrypt_fields E (length (heap w)) cs (w\<lparr>heap := h1\<rparr>)))"



section \<open>ConsentManager\<close>

text \<open>
  The consent manager with its default configuration (consent version \<open>1.0\<close>). The
  options and the context of a call are objects the manager only reads; \<open>JUndefined\<close> is
  an absent property.
\<close>

record consent_options =
  opt_purpose :: jsval
  opt_specific :: jsval
  opt_informed :: jsval
  opt_unambiguous :: jsval
  opt_marketing :: jsval
  opt_analytics :: jsval
  opt_personalization :: jsval
  opt_thirdPartySharing :: jsval
  opt_internationalTransfer :: jsval

record request_context =
  req_ipAddress :: jsval
  req_userAgent :: jsval

definition consent_preferences :: "consent_options \<Rightarrow> cell" where
  "consent_preferences opts = plain
     [(''necessary'', JBool True),
      (''marketing'', js_or (opt_marketing opts) (JBool False)),
      (''analytics'',
         if opt_analytics opts \<noteq> JUndefined then opt_analytics opts else JBool True),
      (''personalization'', js_or (opt_personalization opts) (JBool False)),
      (''thirdPartySharing'', js_or (opt_thirdPartySharing opts) (JBool False)),
      (''internationalTransfer'', js_or (opt_internationalTransfer opts) (JBool False))]"

definition consent_record ::
  "env \<Rightarrow> nat \<Rightarrow> consent_options \<Rightarrow> request_context \<Rightarrow> jsval \<Rightarrow> cell" where
  "consent_record E t opts rc preferences = plain
     [(''version'', JStr ''1.0''),
      (''recordedAt'', JStr (toISOString E (clock E t))),
      (''ipAddress'', req_ipAddress rc),
      (''userAgent'', req_userAgent rc),
      (''lawfulBasis'', JStr ''consent''),
      (''purpose'', js_or (opt_purpose opts) (JStr ''general_processing'')),
      (''specific'', JBool (opt_specific opts \<noteq> JBool False)),
      (''informed'', JBool (opt_informed opts \<noteq> JBool False)),
      (''unambiguous'', JBool (opt_unambiguous opts \<noteq> JBool False)),
      (''preferences'', preferences),
      (''regulation'', JStr ''GDPR''),
      (''article'', JStr ''Article_7''),
      (''requiresExplicitAction'', JBool True),
      (''canWithdraw'', JBool True),
      (''withdrawalMethod'', JStr ''same_as_consent_method''),
      (''withdrawalRecorded'', JBool False)]"

text \<open>
  \<open>ConsentManager.recordConsent\<close>. The new consent record and its preferences are
  allocated first; the record passed in is then written to, and returned.
\<close>

definition recordConsent ::
  "env \<Rightarrow> world \<Rightarrow> jsval \<Rightarrow> consent_options \<Rightarrow> request_context \<Rightarrow> error + jsval \<times> world" where
  "recordConsent E w userData opts rc =
     (let h = heap w;
          preferences = JRef (length h);
          consentRecord = JRef (length h + 1);
          h1 = h @ [consent_preferences opts, consent_record E (tick w) opts rc preferences];
          t1 = tick w + 1
      in
      case get h1 userData ''_consent'' of
        Inl err \<Rightarrow> Inl err
      | Inr c \<Rightarrow>
          if \<not> truthy c then
            (let history = JRef (length h1);
                 h2 = h1 @ [array [],
                            plain [(''current'', consentRecord), (''history'', history)]]
             in case assign h2 userData ''_consent'' (JRef (length h1 + 1)) of
                  Inl err \<Rightarrow> Inl err
                | Inr h3 \<Rightarrow> Inr (userData, \<lparr>heap = h3, tick = t1\<rparr>))
          else
            (case push h1 (read_prop h1 c ''history'') (read_prop h1 c ''current'') of
               Inl err \<Rightarrow> Inl err
             | Inr h2 \<Rightarrow>
                 (case assign h2 c ''current'' consentRecord of
                    Inl err \<Rightarrow> Inl err
                  | Inr h3 \<Rightarrow> Inr (userData, \<lparr>heap = h3, tick = t1\<rparr>))))"

definition withdrawn_preferences :: cell where
  "withdrawn_preferences = plain
     [(''necessary'', JBool True),
      (''marketing'', JBool False),
      (''analytics'', JBool False),
      (''personalization'', JBool False),
      (''thirdPartySharing'', JBool False),
      (''internationalTransfer'', JBool False)]"

text \<open>
  \<open>o[k] = false\<close> with a computed key: assigning a primitive to \<open>__proto__\<close> changes
  nothing.
\<close>

definition assign_key :: "cell list \<Rightarrow> jsval \<Rightarrow> string \<Rightarrow> jsval \<Rightarrow> error + cell list" where
  "assign_key h obj k v =
     (case obj of
        JRef a \<Rightarrow> if k = ''__proto__'' then Inr h else assign h obj k v
      | _ \<Rightarrow> Inl TypeError)"

text \<open>
  \<open>ConsentManager.withdrawConsent\<close>. \<open>previousConsent\<close> is \<open>{...current}\<close>: a new
  object with the properties of the current consent, whose \<open>preferences\<close> property holds
  the same reference as the current consent's.
\<close>

definition withdrawConsent ::
  "env \<Rightarrow> world \<Rightarrow> jsval \<Rightarrow> string \<Rightarrow> request_context \<Rightarrow> error + jsval \<times> world" where
  "withdrawConsent E w userData consentType rc =
     (let h = heap w in
      case get h userData ''_consent'' of
        Inl err \<Rightarrow> Inl err
      | Inr c \<Rightarrow>
          if \<not> truthy c then Inl NoConsentRecords
          else
            (let current = read_prop h c ''current'';
                 previousConsent = JRef (length h);
                 withdrawalRecord = JRef (length h + 1);
                 h1 = h @ [plain (entries h current),
                           plain [(''withdrawnAt'', JStr (toISOString E (clock E (tick w)))),
                                  (''withdrawnConsentType'', JStr consentType),
                                  (''ipAddress'', req_ipAddress rc),
                                  (''userAgent'', req_userAgent rc),
                                  (''previousConsent'', previousConsent)]];
                 t1 = tick w + 1;
                 updated =
                   (if consentType = ''all'' then
                      (case assign (h1 @ [withdrawn_preferences]) current ''preferences''
                              (JRef (length h1)) of
                         Inl err \<Rightarrow> Inl err
                       | Inr h2 \<Rightarrow> assign h2 current ''withdrawn'' (JBool True))
                    else
                      (case get h1 current ''preferences'' of
                         Inl err \<Rightarrow> Inl err
                       | Inr preferences \<Rightarrow> assign_key h1 preferences consentType (JBool False)))
             in
             case updated of
               Inl err \<Rightarrow> Inl err
             | Inr h3 \<Rightarrow>
             (case assign h3 current ''withdrawalRecorded'' (JBool True) of
               Inl err \<Rightarrow> Inl err
             | Inr h4 \<Rightarrow>
             (case assign h4 current ''lastWithdrawal'' withdrawalRecord of
               Inl err \<Rightarrow> Inl err
             | Inr h5 \<Rightarrow>
             (case (if \<not> truthy (read_prop h5 c ''withdrawals'')
                    then assign (h5 @ [array []]) c ''withdrawals'' (JRef (length h5))
                    else Inr h5) of
               Inl err \<Rightarrow> Inl err
             | Inr h6 \<Rightarrow>
             (case push h6 (read_prop h6 c ''withdrawals'') withdrawalRecord of
               Inl err \<Rightarrow> Inl err
             | Inr h7 \<Rightarrow> Inr (userData, \<lparr>heap = h7, tick = t1\<rparr>)))))))"

text \<open>
  \<open>ConsentManager.isGdprCompliantConsent\<close>: the value of the \<open>&&\<close> chain, which is the
  first operand that is not truthy, or the last one.
\<close>

definition isGdprCompliantConsent :: "cell list \<Rightarrow> jsval \<Rightarrow> jsval" where
  "isGdprCompliantConsent h consent =
     (if \<not> truthy consent then JBool False
      else if read_prop h consent ''specific'' \<noteq> JBool True then JBool False
      else if read_prop h consent ''informed'' \<noteq> JBool True then JBool False
      else if read_prop h consent ''unambiguous'' \<noteq> JBool True then JBool False
      else if \<not> truthy (read_prop h consent ''recordedAt'') then read_prop h consent ''recordedAt''
      else if \<not> truthy (read_prop h consent ''purpose'') then read_prop h consent ''purpose''
      else JBool (read_prop h consent ''canWithdraw'' = JBool True))"

text \<open>The preference a processing type is checked against in \<open>hasValidConsent\<close>.\<close>

definition preference_key :: "string \<Rightarrow> string" where
  "preference_key processingType =
     (if processingType = ''third_party_sharing'' then ''thirdPartySharing''
      else if processingType = ''international_transfer'' then ''internationalTransfer''
      else processingType)"

text \<open>\<open>ConsentManager.hasValidConsent\<close>.\<close>

definition hasValidConsent :: "cell list \<Rightarrow> jsval \<Rightarrow> string \<Rightarrow> error + bool" where
  "hasValidConsent h userData processingType =
     (case get h userData ''_consent'' of
        Inl err \<Rightarrow> Inl err
      | Inr c \<Rightarrow>
          if \<not> truthy c \<or> \<not> truthy (read_prop h c ''current'') then Inr False
          else
            (let consent = read_prop h c ''current'' in
             if \<not> truthy (isGdprCompliantConsent h consent) then Inr False
             else if processingType = ''necessary'' then Inr True
             else
               (case get h (read_prop h consent ''preferences'') (preference_key processingType) of
                  Inl err \<Rightarrow> Inl err
                | Inr flag \<Rightarrow> Inr (flag = JBool True))))"

section \<open>RuleEngine\<close>

text \<open>
  The processing context, with the fields and types of the package's type declaration
  (\<open>ComplianceContext\<close>); \<open>personalizationConsent\<close> is read by \<open>applyLaw\<close> as well.
  \<open>None\<close> is an absent field. The engine's configuration is the \<open>autoEncrypt\<close> flag.
\<close>

record proc_context =
  country :: "string option"
  action :: "string option"
  ipAddress :: "string option"
  userAgent :: "string option"
  marketingConsent :: "bool option"
  analyticsConsent :: "bool option"
  personalizationConsent :: "bool option"

record config =
  autoEncrypt :: jsval

text \<open>\<open>[...new Set(xs)]\<close>: the first occurrence of every element, in order.\<close>

fun dedupe :: "'a list \<Rightarrow> 'a list" where
  "dedupe [] = []"
| "dedupe (x # xs) = x # dedupe (filter (\<lambda>y. y \<noteq> x) xs)"

text \<open>
  \<open>RuleEngine.determineApplicableLaws\<close>. The test \<open>if (context.country)\<close> fails for an
  absent and for an empty country.
\<close>

definition determineApplicableLaws :: "proc_context \<Rightarrow> string list" where
  "determineApplicableLaws ctx =
     (let laws = [''GDPR''];
          laws =
            (case country ctx of
               None \<Rightarrow> laws
             | Some c \<Rightarrow>
                 if c = [] then laws
                 else
                   (let cu = toUpperCase c;
                        laws = (if cu = ''US'' \<or> cu = ''CA'' then laws @ [''CCPA''] else laws);
                        laws = (if cu = ''BR'' then laws @ [''LGPD''] else laws);
                        laws = (if cu = ''CA'' then laws @ [''PIPEDA''] else laws)
                    in laws))
      in dedupe laws)"

definition rights_of :: "string \<Rightarrow> string list" where
  "rights_of law =
     (if law = ''GDPR'' then
        [''right_to_access'', ''right_to_rectification'', ''right_to_erasure'',
         ''right_to_restrict_processing'', ''right_to_data_portability'', ''right_to_object'']
      else if law = ''CCPA'' then
        [''right_to_know'', ''right_to_delete'', ''right_to_opt_out'',
         ''right_to_non_discrimination'']
      else [])"

definition getDataRights :: "string list \<Rightarrow> string list" where
  "getDataRights ls = dedupe (concat (map rights_of ls))"

subsection \<open>Classification\<close>

definition fc ::
  "string \<Rightarrow> string \<Rightarrow> string list \<Rightarrow> string \<Rightarrow> bool \<Rightarrow> nat \<Rightarrow> field_class" where
  "fc t s ls r e d =
     \<lparr>ctype = Some t, sensitivity = Some s, laws = Some ls, recommendation = Some r,
      encryptionRequired = Some e, retentionDays = Some d\<rparr>"

text \<open>\<open>RuleEngine.loadFieldClassifications\<close>.\<close>

definition fieldClassifications :: "(string \<times> field_class) list" where
  "fieldClassifications =
     [(''email'', fc ''direct_identifier'' ''high'' [''GDPR'', ''CCPA'', ''LGPD'']
                    ''encrypt_at_rest'' True 365),
      (''phone'', fc ''direct_identifier'' ''high'' [''GDPR'', ''CCPA'']
                    ''encrypt_at_rest'' True 365),
      (''phoneNumber'', fc ''direct_identifier'' ''high'' [''GDPR'', ''CCPA'']
                    ''encrypt_at_rest'' True 365),
      (''birthdate'', fc ''demographic'' ''medium'' [''GDPR'', ''COPPA'']
                    ''store_age_range_instead'' False 365),
      (''age'', fc ''demographic'' ''low'' [''GDPR''] ''store_age_range'' False 365),
      (''location'', fc ''geolocation'' ''high'' [''GDPR'']
                    ''store_region_instead_of_precise'' True 90),
      (''gps'', fc ''geolocation'' ''high'' [''GDPR''] ''avoid_storage_use_ephemeral'' True 7),
      (''creditCard'', fc ''financial'' ''critical'' [''GDPR'', ''PCI_DSS'']
                    ''never_store_use_tokenization'' True 0),
      (''password'', fc ''credential'' ''critical'' [''GDPR''] ''hash_with_salt'' True 0),
      (''interests'', fc ''behavioral'' ''low'' [''GDPR''] ''anonymous_aggregation_ok'' False 730),
      (''preferences'', fc ''behavioral'' ''low'' [''GDPR'']
                    ''can_be_stored_anonymously'' False 730)]"

text \<open>
  The table is an object literal, so \<open>this.fieldClassifications[fieldName]\<close> also finds
  what the table inherits from \<open>Object.prototype\<close>: a function or object that has none
  of the classification's properties.
\<close>

definition object_prototype_names :: "string list" where
  "object_prototype_names =
     [''constructor'', ''__proto__'', ''hasOwnProperty'', ''isPrototypeOf'',
      ''propertyIsEnumerable'', ''toString'', ''toLocaleString'', ''valueOf'',
      ''__defineGetter__'', ''__defineSetter__'', ''__lookupGetter__'', ''__lookupSetter__'']"

definition inherited_class :: field_class where
  "inherited_class =
     \<lparr>ctype = None, sensitivity = None, laws = None, recommendation = None,
      encryptionRequired = None, retentionDays = None\<rparr>"

definition inferred :: "string \<Rightarrow> string \<Rightarrow> string list \<Rightarrow> field_class" where
  "inferred t s ls =
     \<lparr>ctype = Some t, sensitivity = Some s, laws = Some ls, recommendation = None,
      encryptionRequired = None, retentionDays = None\<rparr>"

text \<open>\<open>RuleEngine.inferClassification\<close>.\<close>

definition inferClassification :: "string \<Rightarrow> field_class" where
  "inferClassification fieldName =
     (let lowerField = toLowerCase fieldName in
      if includes_str lowerField ''email'' then
        inferred ''direct_identifier'' ''high'' [''GDPR'', ''CCPA'']
      else if includes_str lowerField ''phone'' \<or> includes_str lowerField ''mobile'' then
        inferred ''direct_identifier'' ''high'' [''GDPR'', ''CCPA'']
      else if includes_str lowerField ''birth'' \<or> includes_str lowerField ''dob'' then
        inferred ''demographic'' ''medium'' [''GDPR'']
      else if includes_str lowerField ''location'' \<or> includes_str lowerField ''gps''
              \<or> includes_str lowerField ''coord'' then
        inferred ''geolocation'' ''high'' [''GDPR'']
      else if includes_str lowerField ''pass'' \<or> includes_str lowerField ''pwd'' then
        inferred ''credential'' ''critical'' [''GDPR'']
      else fc ''general'' ''low'' [''GDPR''] ''standard_handling'' False 365)"

text \<open>\<open>RuleEngine.classifyField\<close>.\<close>

definition classifyField :: "string \<Rightarrow> field_class" where
  "classifyField fieldName =
     (case map_of fieldClassifications fieldName of
        Some c \<Rightarrow> c
      | None \<Rightarrow>
          if fieldName \<in> set object_prototype_names then inherited_class
          else inferClassification fieldName)"

definition classify_entry :: "string \<Rightarrow> classification" where
  "classify_entry f = field_class.extend (classifyField f) (classification.fields f)"

text \<open>
  \<open>RuleEngine.classifyData\<close>: one classification for every enumerable property whose
  value is neither \<open>undefined\<close> nor \<open>null\<close>; \<open>Object.entries\<close> raises on those two.
\<close>

definition classifyData :: "cell list \<Rightarrow> jsval \<Rightarrow> error + classification list" where
  "classifyData h data =
     (if data = JUndefined \<or> data = JNull then Inl TypeError
      else Inr (map (\<lambda>fv. classify_entry (fst fv))
                  (filter (\<lambda>fv. snd fv \<noteq> JUndefined \<and> snd fv \<noteq> JNull) (entries h data))))"

subsection \<open>Obligations\<close>

text \<open>\<open>fields.some(field => field in data)\<close>.\<close>

fun some_in :: "cell list \<Rightarrow> jsval \<Rightarrow> string list \<Rightarrow> error + bool" where
  "some_in h data [] = Inr False"
| "some_in h data (f # fs) =
     (case has_prop h data f of
        Inl err \<Rightarrow> Inl err
      | Inr True \<Rightarrow> Inr True
      | Inr False \<Rightarrow> some_in h data fs)"

definition hasExcessiveData :: "cell list \<Rightarrow> jsval \<Rightarrow> error + bool" where
  "hasExcessiveData h data =
     some_in h data [''socialSecurity'', ''driversLicense'', ''passportNumber'']"

definition canBeDeleted :: "cell list \<Rightarrow> jsval \<Rightarrow> error + bool" where
  "canBeDeleted h data =
     (case some_in h data [''email'', ''phone'', ''userId''] of
        Inl err \<Rightarrow> Inl err
      | Inr b \<Rightarrow> Inr (\<not> b))"

text \<open>\<open>RuleEngine.minimizeData\<close>.\<close>

definition minimizeData :: "cell list \<Rightarrow> jsval \<Rightarrow> proc_context \<Rightarrow> jsval \<times> cell list" where
  "minimizeData h data ctx =
     (case spread h data of
        (minimized, h1) \<Rightarrow>
          if action ctx = Some ''registration'' \<and> truthy (read_prop h1 minimized ''gps'')
          then (minimized, delete_prop h1 (length h) ''gps'')
          else (minimized, h1))"

text \<open>
  \<open>RuleEngine.calculateRetentionPeriod\<close>: \<open>Math.max\<close> of no argument is \<open>-Infinity\<close>;
  \<open>c.retentionDays || 365\<close> is 365 for an absent and for a zero retention.
\<close>

definition retention_of :: "classification \<Rightarrow> nat" where
  "retention_of c = (case retentionDays c of None \<Rightarrow> 365 | Some d \<Rightarrow> if d = 0 then 365 else d)"

definition calculateRetentionPeriod :: "cell list \<Rightarrow> jsval \<Rightarrow> error + num" where
  "calculateRetentionPeriod h data =
     (case classifyData h data of
        Inl err \<Rightarrow> Inl err
      | Inr cs \<Rightarrow>
          Inr (case map retention_of cs of
                 [] \<Rightarrow> NegInfinity
               | d # ds \<Rightarrow> Intg (int (fold max ds d))))"

definition of_str :: "string option \<Rightarrow> jsval" where
  "of_str s = (case s of None \<Rightarrow> JUndefined | Some x \<Rightarrow> JStr x)"

definition of_flag :: "bool option \<Rightarrow> jsval" where
  "of_flag b = (case b of None \<Rightarrow> JUndefined | Some x \<Rightarrow> JBool x)"

text \<open>The options and the context \<open>applyLaw\<close> passes to \<open>recordConsent\<close>.\<close>

definition gdpr_consent_options :: "proc_context \<Rightarrow> consent_options" where
  "gdpr_consent_options ctx =
     \<lparr>opt_purpose = js_or (of_str (action ctx)) (JStr ''general_processing''),
      opt_specific = JUndefined,
      opt_informed = JUndefined,
      opt_unambiguous = JUndefined,
      opt_marketing = js_or (of_flag (marketingConsent ctx)) (JBool False),
      opt_analytics = JBool (analyticsConsent ctx \<noteq> Some False),
      opt_personalization = js_or (of_flag (personalizationConsent ctx)) (JBool False),
      opt_thirdPartySharing = JUndefined,
      opt_internationalTransfer = JUndefined\<rparr>"

definition gdpr_request_context :: "proc_context \<Rightarrow> request_context" where
  "gdpr_request_context ctx =
     \<lparr>req_ipAddress = of_str (ipAddress ctx), req_userAgent = of_str (userAgent ctx)\<rparr>"

text \<open>
  The steps of \<open>applyLaw\<close> and of the loop over the laws each take the record so far
  and give the record and the actions they add; \<open>and_then\<close> runs one after another,
  stopping at an exception.
\<close>

type_synonym step = "error + (jsval \<times> string list) \<times> world"

definition and_then :: "step \<Rightarrow> (jsval \<Rightarrow> world \<Rightarrow> step) \<Rightarrow> step" where
  "and_then r f =
     (case r of
        Inl err \<Rightarrow> Inl err
      | Inr ((pd, acts), w) \<Rightarrow>
          (case f pd w of
             Inl err \<Rightarrow> Inl err
           | Inr ((pd', acts'), w') \<Rightarrow> Inr ((pd', acts @ acts'), w')))"

text \<open>\<open>applyLaw\<close>, case \<open>GDPR\<close>, Article 6: consent is recorded unless the record has one.\<close>

definition gdpr_consent :: "env \<Rightarrow> proc_context \<Rightarrow> jsval \<Rightarrow> world \<Rightarrow> step" where
  "gdpr_consent E ctx processedData w =
     (case get (heap w) processedData ''_consent'' of
        Inl err \<Rightarrow> Inl err
      | Inr c \<Rightarrow>
          if \<not> truthy c
          then (case recordConsent E w processedData (gdpr_consent_options ctx)
                       (gdpr_request_context ctx) of
                  Inl err \<Rightarrow> Inl err
                | Inr (pd, w1) \<Rightarrow> Inr ((pd, [''gdpr_consent_recorded'']), w1))
          else Inr ((processedData, []), w))"

text \<open>Article 5: minimization, decided on the record as \<open>applyLaw\<close> received it.\<close>

definition gdpr_minimize :: "jsval \<Rightarrow> proc_context \<Rightarrow> jsval \<Rightarrow> world \<Rightarrow> step" where
  "gdpr_minimize data ctx processedData w =
     (case hasExcessiveData (heap w) data of
        Inl err \<Rightarrow> Inl err
      | Inr excessive \<Rightarrow>
          if excessive
          then (case minimizeData (heap w) processedData ctx of
                  (m, h1) \<Rightarrow> Inr ((m, [''gdpr_data_minimization_applied'']), w\<lparr>heap := h1\<rparr>))
          else Inr ((processedData, []), w))"

text \<open>Article 17: deletion metadata, unless the record has some.\<close>

definition gdpr_deletion :: "jsval \<Rightarrow> world \<Rightarrow> step" where
  "gdpr_deletion processedData w =
     (case get (heap w) processedData ''_deletionMetadata'' of
        Inl err \<Rightarrow> Inl err
      | Inr dm \<Rightarrow>
          if truthy dm then Inr ((processedData, []), w)
          else
            (case canBeDeleted (heap w) processedData of
               Inl err \<Rightarrow> Inl err
             | Inr deletable \<Rightarrow>
            (case calculateRetentionPeriod (heap w) processedData of
               Inl err \<Rightarrow> Inl err
             | Inr retention \<Rightarrow>
                 (let h1 = heap w @
                        [plain [(''canBeDeleted'', JBool deletable),
                                (''retentionPeriod'', JNum retention),
                                (''deletionProcedure'', JStr ''anonymize_sensitive_keep_anonymous''),
                                (''consentWithdrawalImpact'', JStr ''stop_processing_immediately'')]]
                  in case assign h1 processedData ''_deletionMetadata'' (JRef (length (heap w))) of
                       Inl err \<Rightarrow> Inl err
                     | Inr h2 \<Rightarrow>
                         Inr ((processedData, [''gdpr_deletion_metadata_added'']),
                              w\<lparr>heap := h2\<rparr>)))))"

definition applyGDPR :: "env \<Rightarrow> world \<Rightarrow> jsval \<Rightarrow> jsval \<Rightarrow> proc_context \<Rightarrow> step" where
  "applyGDPR E w data processedData ctx =
     and_then (and_then (gdpr_consent E ctx processedData w) (gdpr_minimize data ctx))
       gdpr_deletion"

text \<open>\<open>RuleEngine.applyLaw\<close>, case \<open>CCPA\<close>.\<close>

definition applyCCPA :: "env \<Rightarrow> world \<Rightarrow> jsval \<Rightarrow> step" where
  "applyCCPA E w processedData =
     (case get (heap w) processedData ''_ccpaRights'' of
        Inl err \<Rightarrow> Inl err
      | Inr r \<Rightarrow>
          if truthy r then Inr ((processedData, []), w)
          else
            (let h = heap w;
                 h1 = h @ [\<lparr>props = [], hidden = [], kind = DateMs (clock E (tick w))\<rparr>,
                           plain [(''optOutOfSale'', JBool True),
                                  (''verified'', JBool False),
                                  (''lastUpdated'', JRef (length h)),
                                  (''method'', JStr ''user_request'')]]
             in case assign h1 processedData ''_ccpaRights'' (JRef (length h + 1)) of
                  Inl err \<Rightarrow> Inl err
                | Inr h2 \<Rightarrow>
                    Inr ((processedData, [''ccpa_rights_metadata_added'']),
                         \<lparr>heap = h2, tick = tick w + 1\<rparr>)))"

text \<open>\<open>RuleEngine.applyLaw\<close>: a copy of the record, then the law's case; other laws change nothing.\<close>

definition applyLaw :: "env \<Rightarrow> world \<Rightarrow> jsval \<Rightarrow> string \<Rightarrow> proc_context \<Rightarrow> step" where
  "applyLaw E w data law ctx =
     (case spread (heap w) data of
        (processedData, h1) \<Rightarrow>
          if law = ''GDPR'' then applyGDPR E (w\<lparr>heap := h1\<rparr>) data processedData ctx
          else if law = ''CCPA'' then applyCCPA E (w\<lparr>heap := h1\<rparr>) processedData
          else Inr ((processedData, []), w\<lparr>heap := h1\<rparr>))"

subsection \<open>Warnings\<close>

record warning =
  level :: string
  message :: string
  wfield :: "string option"
  advice :: string

text \<open>
  The number a value converts to in \<open>x < 12\<close>; the conversion of a string or an object is
  the runtime's.
\<close>

definition to_num :: "env \<Rightarrow> cell list \<Rightarrow> jsval \<Rightarrow> num" where
  "to_num E h v =
     (case v of
        JUndefined \<Rightarrow> NaN
      | JNull \<Rightarrow> Intg 0
      | JBool b \<Rightarrow> Intg (if b then 1 else 0)
      | JNum n \<Rightarrow> n
      | _ \<Rightarrow> toNumber E h v)"

definition less_than :: "env \<Rightarrow> cell list \<Rightarrow> jsval \<Rightarrow> int \<Rightarrow> bool" where
  "less_than E h v n =
     (case to_num E h v of
        Intg i \<Rightarrow> i < n
      | NaN \<Rightarrow> False
      | Infinity \<Rightarrow> False
      | NegInfinity \<Rightarrow> True)"

definition weak_password_warning :: warning where
  "weak_password_warning =
     \<lparr>level = ''high'',
      message = ''Password is too weak (minimum 12 characters recommended)'',
      wfield = Some ''password'',
      advice = ''enforce_stronger_password_policy''\<rparr>"

definition missing_consent_warning :: warning where
  "missing_consent_warning =
     \<lparr>level = ''medium'',
      message = ''No explicit consent recorded for data processing'',
      wfield = Some ''_complianceConsent'',
      advice = ''capture_explicit_consent_with_timestamp''\<rparr>"

definition pii_warning :: "nat \<Rightarrow> warning" where
  "pii_warning piiCount =
     \<lparr>level = ''medium'',
      message = ''Collecting '' @ dec piiCount
                  @ '' high-sensitivity fields - consider data minimization'',
      wfield = None,
      advice = ''review_data_collection_practices''\<rparr>"

text \<open>\<open>RuleEngine.checkForWarnings\<close>.\<close>

definition checkForWarnings :: "env \<Rightarrow> cell list \<Rightarrow> jsval \<Rightarrow> error + warning list" where
  "checkForWarnings E h data =
     (case get h data ''password'' of
        Inl err \<Rightarrow> Inl err
      | Inr password \<Rightarrow>
     (case classifyData h data of
        Inl err \<Rightarrow> Inl err
      | Inr cs \<Rightarrow>
          (let piiCount =
                 length (filter (\<lambda>c. sensitivity c = Some ''high'' \<or> sensitivity c = Some ''critical'') cs)
           in Inr
             ((if truthy password \<and> less_than E h (read_prop h password ''length'') 12
               then [weak_password_warning] else [])
              @ (if \<not> truthy (read_prop h data ''_complianceConsent'')
                 then [missing_consent_warning] else [])
              @ (if piiCount > 3 then [pii_warning piiCount] else [])))))"

subsection \<open>The orchestrator\<close>

record result =
  rdata :: jsval
  compliance :: compliance_meta
  warnings :: "warning list"
  processingTime :: int

text \<open>The loop of \<open>process\<close> over the applicable laws.\<close>

fun apply_laws :: "env \<Rightarrow> proc_context \<Rightarrow> string list \<Rightarrow> jsval \<Rightarrow> world \<Rightarrow> step" where
  "apply_laws E ctx [] pd w = Inr ((pd, []), w)"
| "apply_laws E ctx (law # ls) pd w =
     and_then (applyLaw E w pd law ctx) (apply_laws E ctx ls)"

text \<open>
  \<open>RuleEngine.process\<close>. The clock is read at the start, for \<open>processedAt\<close>, for the
  attached processing time and for the returned one.
\<close>

definition process ::
  "env \<Rightarrow> config \<Rightarrow> world \<Rightarrow> jsval \<Rightarrow> proc_context \<Rightarrow> error + result \<times> world" where
  "process E cfg w data ctx =
     (let startTime = clock E (tick w);
          ls = determineApplicableLaws ctx;
          at = clock E (tick w + 1);
          rights = getDataRights ls
      in
      case spread (heap w) data of
        (pd0, h0) \<Rightarrow>
     (case apply_laws E ctx ls pd0 \<lparr>heap = h0, tick = tick w + 2\<rparr> of
        Inl err \<Rightarrow> Inl err
      | Inr ((pd1, acts1), w1) \<Rightarrow>
     (case classifyData (heap w1) pd1 of
        Inl err \<Rightarrow> Inl err
      | Inr cs \<Rightarrow>
     (case (if autoEncrypt cfg \<noteq> JBool False
            then (case autoEncryptSensitiveFields E w1 pd1 cs of
                    (pd, w2) \<Rightarrow>
                      ((pd, acts1 @ (if pd \<noteq> data then [''sensitive_fields_encrypted''] else [])),
                       w2))
            else ((pd1, acts1), w1)) of
        ((pd2, acts2), w2) \<Rightarrow>
     (case pd2 of
        JRef a \<Rightarrow>
          (let meta = \<lparr>processedAt = at, applicableLaws = ls, actions = acts2,
                        dataRights = rights\<rparr>;
               attached = \<lparr>props = [], hidden = [],
                           kind = Attached (compliance_meta.extend meta
                             (compliance_attached.fields cs (clock E (tick w2) - startTime)))\<rparr>;
               h3 = define_hidden (heap w2 @ [attached]) a ''_compliance''
                      (JRef (length (heap w2)))
           in case checkForWarnings E h3 pd2 of
                Inl err \<Rightarrow> Inl err
              | Inr ws \<Rightarrow>
                  Inr (\<lparr>rdata = pd2, compliance = meta, warnings = ws,
                         processingTime = clock E (tick w2 + 1) - startTime\<rparr>,
                       \<lparr>heap = h3, tick = tick w2 + 2\<rparr>))
      | _ \<Rightarrow> Inl TypeError)))))"

section \<open>A runtime for concrete runs\<close>

text \<open>
  A small runtime on which the functions above can be run on examples. Its cipher keeps
  the plaintext's bytes and takes key, IV and ciphertext together as the tag, so that
  decryption succeeds on exactly what encryption produced; its key derivation appends the
  salt to the password. Its JSON covers the literals: \<open>JSON.parse\<close> reads \<open>null\<close>, \<open>true\<close>,
  \<open>false\<close> and unsigned decimal integers without a leading zero, as Node does, and
  \<open>JSON.stringify\<close> writes booleans and natural numbers.
\<close>

definition bytes_of :: "string \<Rightarrow> byte list" where
  "bytes_of s = map (\<lambda>c. word_of_nat (of_char c)) s"

definition string_of :: "byte list \<Rightarrow> string" where
  "string_of bs = map (\<lambda>b. char_of (unat b)) bs"

definition is_digit :: "char \<Rightarrow> bool" where
  "is_digit c = (c \<in> set ''0123456789'')"

definition digit_val :: "char \<Rightarrow> nat" where
  "digit_val c = of_char c - 48"

definition read_dec :: "string \<Rightarrow> nat" where
  "read_dec s = fold (\<lambda>c n. 10 * n + digit_val c) s 0"

definition literal_parse :: "string \<Rightarrow> json option" where
  "literal_parse s =
     (if s = ''null'' then Some JsNull
      else if s = ''true'' then Some (JsBool True)
      else if s = ''false'' then Some (JsBool False)
      else if s \<noteq> [] \<and> list_all is_digit s \<and> (hd s \<noteq> CHR ''0'' \<or> length s = 1)
      then Some (JsNum (Intg (int (read_dec s))))
      else None)"

definition literal_stringify :: "cell list \<Rightarrow> jsval \<Rightarrow> string option" where
  "literal_stringify h v =
     (case v of
        JBool b \<Rightarrow> Some (if b then ''true'' else ''false'')
      | JNum (Intg n) \<Rightarrow> if 0 \<le> n then Some (dec (nat n)) else None
      | _ \<Rightarrow> None)"

definition sample_env :: env where
  "sample_env =
     \<lparr>masterKey = ''master'',
      randomBytes = (\<lambda>t n. replicate n (word_of_nat (t + 10))),
      clock = (\<lambda>t. 1000 + int t),
      toISOString = (\<lambda>ms. dec (nat ms)),
      pbkdf2Sync = (\<lambda>password salt. bytes_of password @ salt),
      gcm_encrypt = (\<lambda>key iv s. (bytes_of s, key @ iv @ bytes_of s)),
      gcm_decrypt = (\<lambda>key iv tag ct. if tag = key @ iv @ ct then Some (string_of ct) else None),
      bufferFrom = (\<lambda>h a. None),
      json_stringify = literal_stringify,
      json_parse = literal_parse,
      toNumber = (\<lambda>h v. NaN)\<rparr>"

definition empty_context :: proc_context where
  "empty_context =
     \<lparr>country = None, action = None, ipAddress = None, userAgent = None,
      marketingConsent = None, analyticsConsent = None, personalizationConsent = None\<rparr>"

definition ctx_of :: "string option \<Rightarrow> proc_context" where
  "ctx_of c = empty_context\<lparr>country := c\<rparr>"

definition default_config :: config where
  "default_config = \<lparr>autoEncrypt = JBool True\<rparr>"


definition world_of :: "cell list \<Rightarrow> world" where
  "world_of h = \<lparr>heap = h, tick = 0\<rparr>"

section \<open>Stores of the examples\<close>

text \<open>
  The record of the consent manager's tests: preferences (address 0), the current consent
  (1), the consent ledger (2) and the record that holds it (3).
\<close>

definition consent_store :: "cell list" where
  "consent_store =
     [plain [(''marketing'', JBool True), (''analytics'', JBool True),
             (''necessary'', JBool True), (''personalization'', JBool False),
             (''thirdPartySharing'', JBool False), (''internationalTransfer'', JBool False)],
      plain [(''specific'', JBool True), (''informed'', JBool True),
             (''unambiguous'', JBool True), (''recordedAt'', JStr ''2024-01-01T00:00:00.000Z''),
             (''purpose'', JStr ''registration''), (''canWithdraw'', JBool True),
             (''preferences'', JRef 0)],
      plain [(''current'', JRef 1)],
      plain [(''_consent'', JRef 2)]]"

definition test_request :: request_context where
  "test_request = \<lparr>req_ipAddress = JStr ''192.168.1.1'', req_userAgent = JUndefined\<rparr>"




text \<open>A record that holds nothing but an email address, and one with a password as well.\<close>

definition guest_store :: "cell list" where
  "guest_store = [plain [(''email'', JStr ''a@b.com'')]]"

section \<open>Notions the properties are stated with\<close>

text \<open>A value of the store \<open>h\<close>: a primitive, or a reference to one of its objects.\<close>

definition store_value :: "cell list \<Rightarrow> jsval \<Rightarrow> bool" where
  "store_value h v = (case v of JRef a \<Rightarrow> a < length h | _ \<Rightarrow> True)"

text \<open>
  The text \<open>encrypt\<close> feeds to the cipher: the string itself, or \<open>JSON.stringify\<close> of the
  value; none for \<open>null\<close> and \<open>undefined\<close> and where \<open>JSON.stringify\<close> throws.
\<close>

definition plaintext_of :: "env \<Rightarrow> cell list \<Rightarrow> jsval \<Rightarrow> string option" where
  "plaintext_of E h v =
     (case v of
        JUndefined \<Rightarrow> None
      | JNull \<Rightarrow> None
      | JStr s \<Rightarrow> Some s
      | _ \<Rightarrow> json_stringify E h v)"

text \<open>
  What the inner \<open>try\<close> of \<open>decrypt\<close> returns for a decrypted text: the value
  \<open>JSON.parse\<close> builds from it, or the text where it does not parse.
\<close>

definition parsed_or_text :: "env \<Rightarrow> string \<Rightarrow> world \<Rightarrow> jsval \<times> world" where
  "parsed_or_text E s w =
     (case json_parse E s of
        Some j \<Rightarrow> (case alloc_json j (heap w) of (v, h') \<Rightarrow> (v, w\<lparr>heap := h'\<rparr>))
      | None \<Rightarrow> (JStr s, w))"





text \<open>
  An object the running call has made: a plain object of the store \<open>h\<close> at an address
  from \<open>n\<close> on, where \<open>n\<close> is the size of the store the call started with.
\<close>

definition working :: "nat \<Rightarrow> cell list \<Rightarrow> jsval \<Rightarrow> bool" where
  "working n h v =
     (case v of
        JRef a \<Rightarrow> n \<le> a \<and> a < length h \<and> kind (h ! a) = Plain \<and> hidden (h ! a) = []
      | _ \<Rightarrow> False)"

text \<open>
  How the record of a running call may change from one step to a later one: the record
  is an object the call has made, the caller's store is as it was, fields other than the
  four the obligations write keep their values, a field with a truthy value keeps it
  (\<open>gps\<close>, which minimization may drop, apart), every value is an old one or a
  value of the new store, and the record is the same object or a new one, the only
  object of the old store that may have changed.
\<close>

definition advance :: "nat \<Rightarrow> world \<Rightarrow> jsval \<Rightarrow> world \<Rightarrow> jsval \<Rightarrow> bool" where
  "advance n w pd w' pd' =
     (working n (heap w') pd'
      \<and> take n (heap w') = take n (heap w)
      \<and> length (heap w) \<le> length (heap w')
      \<and> (\<forall>k. k \<notin> {''_consent'', ''_deletionMetadata'', ''_ccpaRights'', ''gps''} \<longrightarrow>
            map_of (entries (heap w') pd') k = map_of (entries (heap w) pd) k)
      \<and> (\<forall>k. k \<noteq> ''gps'' \<and> truthy (read_prop (heap w) pd k) \<longrightarrow>
            map_of (entries (heap w') pd') k = map_of (entries (heap w) pd) k)
      \<and> (map_of (entries (heap w') pd') ''gps'' = map_of (entries (heap w) pd) ''gps''
         \<or> map_of (entries (heap w') pd') ''gps'' = None)
      \<and> (\<forall>k v. (k, v) \<in> set (entries (heap w') pd') \<longrightarrow>
            (k, v) \<in> set (entries (heap w) pd) \<or> store_value (heap w') v)
      \<and> (\<forall>i. i < length (heap w) \<and> JRef i \<noteq> pd \<longrightarrow> heap w' ! i = heap w ! i)
      \<and> (pd' = pd \<or> \<not> store_value (heap w) pd'))"

text \<open>The record has one of the fields \<open>hasExcessiveData\<close> looks for.\<close>

definition excessive :: "cell list \<Rightarrow> jsval \<Rightarrow> bool" where
  "excessive h pd =
     (\<exists>f \<in> set [''socialSecurity'', ''driversLicense'', ''passportNumber''].
        map_of (entries h pd) f \<noteq> None)"


text \<open>
  What a pass of \<open>applyLaw\<close> for a law leaves on the record: the metadata the law adds,
  and for GDPR no location left where minimization drops it.
\<close>

definition law_met :: "proc_context \<Rightarrow> string \<Rightarrow> cell list \<Rightarrow> jsval \<Rightarrow> bool" where
  "law_met ctx law h pd =
     ((law = ''GDPR'' \<longrightarrow>
         truthy (read_prop h pd ''_consent'') \<and> truthy (read_prop h pd ''_deletionMetadata'')
         \<and> \<not> (excessive h pd \<and> action ctx = Some ''registration''
                \<and> truthy (read_prop h pd ''gps'')))
      \<and> (law = ''CCPA'' \<longrightarrow> truthy (read_prop h pd ''_ccpaRights'')))"

definition settled :: "proc_context \<Rightarrow> string list \<Rightarrow> cell list \<Rightarrow> jsval \<Rightarrow> bool" where
  "settled ctx ls h pd = (\<forall>law \<in> set ls. law_met ctx law h pd)"

text \<open>
  An encrypted field as \<open>encrypt\<close> makes it: a plain object of the store that carries the
  mark \<open>_encrypted\<close> and has no property \<open>length\<close>.
\<close>

definition cipher :: "cell list \<Rightarrow> jsval \<Rightarrow> bool" where
  "cipher h v =
     (case v of
        JRef b \<Rightarrow> b < length h \<and> kind (h ! b) = Plain \<and> hidden (h ! b) = []
                  \<and> map_of (props (h ! b)) ''_encrypted'' = Some (JBool True)
                  \<and> map_of (props (h ! b)) ''length'' = None
      | _ \<Rightarrow> False)"

text \<open>
  What the loop of \<open>autoEncryptSensitiveFields\<close> does to its copy \<open>d\<close> of the record, from
  \<open>w\<close> to \<open>w'\<close>: the copy keeps its keys, each value is the one it was or a new encrypted
  field put in the place of a truthy value, and no other object of \<open>w\<close> changes.
\<close>

definition sealing :: "nat \<Rightarrow> nat \<Rightarrow> world \<Rightarrow> world \<Rightarrow> bool" where
  "sealing n d w w' =
     (working n (heap w') (JRef d)
      \<and> length (heap w) \<le> length (heap w')
      \<and> (\<forall>i. i < length (heap w) \<and> i \<noteq> d \<longrightarrow> heap w' ! i = heap w ! i)
      \<and> map fst (entries (heap w') (JRef d)) = map fst (entries (heap w) (JRef d))
      \<and> (\<forall>k. map_of (entries (heap w') (JRef d)) k = map_of (entries (heap w) (JRef d)) k
             \<or> (truthy (read_prop (heap w) (JRef d) k)
                \<and> (\<exists>b. map_of (entries (heap w') (JRef d)) k = Some (JRef b)
                       \<and> length (heap w) \<le> b \<and> cipher (heap w') (JRef b)))))"

text \<open>The value \<open>{...v}\<close> copies under the key \<open>k\<close>: that of the enumerable own property.\<close>

definition own :: "cell list \<Rightarrow> jsval \<Rightarrow> string \<Rightarrow> jsval" where
  "own h v k = (case map_of (entries h v) k of Some x \<Rightarrow> x | None \<Rightarrow> JUndefined)"
section \<open>Evaluation rules\<close>

lemmas store_defs = plain_def array_def cell_at_def js_or_def indexed_def elem_props_def
  read_prop_def get_def entries_def write_prop_def assign_def delete_prop_def define_hidden_def
  has_prop_def spread_def push_def assign_key_def


lemma dec_digit: "n < 10 \<Longrightarrow> dec n = [digit_char n]"
  by (subst dec.simps) simp

lemma dec_0: "dec 0 = ''0''"
  by (simp add: dec_digit digit_char_def)

section \<open>Hexadecimal round trip\<close>




section \<open>Encryption\<close>

lemma put_map_of: "map_of (put k v ps) k' = (if k' = k then Some v else map_of ps k')"
  by (induction ps) auto

lemma put_keys: "k \<in> fst ` set ps \<Longrightarrow> map fst (put k v ps) = map fst ps"
  by (induction ps) auto

lemma put_same: "map_of ps k = Some v \<Longrightarrow> put k v ps = ps"
  by (induction ps) (auto split: if_splits)

lemma read_prop_plain:
  "a < length h \<Longrightarrow> kind (h ! a) = Plain \<Longrightarrow> hidden (h ! a) = [] \<Longrightarrow>
   read_prop h (JRef a) k = (case map_of (props (h ! a)) k of Some x \<Rightarrow> x | None \<Rightarrow> JUndefined)"
  by (simp add: read_prop_def cell_at_def elem_props_def Let_def split: option.split)





lemma alloc_json_extends:
  "\<exists>cs. snd (alloc_json j h) = h @ cs"
  "\<exists>cs. snd (alloc_jsons js h) = h @ cs"
  "\<exists>cs. snd (alloc_members ms h) = h @ cs"
proof (induction j h and js h and ms h rule: alloc_json_alloc_jsons_alloc_members.induct)
  case (5 xs h)
  then show ?case by (auto split: prod.splits)
next
  case (6 ms h)
  then show ?case by (auto split: prod.splits)
next
  case (8 x xs h)
  obtain v h1 where a: "alloc_json x h = (v, h1)" by force
  obtain vs h2 where b: "alloc_jsons xs h1 = (vs, h2)" by force
  from 8 a b show ?case by auto
next
  case (10 m ms h)
  obtain v h1 where a: "alloc_json (snd m) h = (v, h1)" by force
  obtain ps h2 where b: "alloc_members ms h1 = (ps, h2)" by force
  from 10 a b show ?case by auto
qed simp_all

lemma parsed_or_text_extends:
  "\<exists>cs. heap (snd (parsed_or_text E s w)) = heap w @ cs"
proof (cases "json_parse E s")
  case None
  then show ?thesis by (simp add: parsed_or_text_def)
next
  case (Some j)
  obtain v h' where a: "alloc_json j (heap w) = (v, h')" by force
  with alloc_json_extends(1) [of j "heap w"] Some show ?thesis
    by (auto simp add: parsed_or_text_def)
qed



lemma encrypt_no_text:
  "plaintext_of E (heap w) v = None \<Longrightarrow> encrypt E w v f = (v, w)"
  by (cases v) (auto simp add: plaintext_of_def encrypt_def)

section \<open>Round trip\<close>






section \<open>Tampering\<close>






section \<open>The store under the steps of a call\<close>

lemma write_prop_length [simp]: "length (write_prop h a k v) = length h"
  by (simp add: write_prop_def)

lemma write_prop_take: "n \<le> a \<Longrightarrow> take n (write_prop h a k v) = take n h"
  by (simp add: write_prop_def)


lemma working_ref: "working n h v \<Longrightarrow> \<exists>a. v = JRef a"
  by (cases v) (simp_all add: working_def)

lemma working_read:
  "working n h (JRef a) \<Longrightarrow>
   read_prop h (JRef a) k = (case map_of (props (h ! a)) k of Some x \<Rightarrow> x | None \<Rightarrow> JUndefined)"
  by (simp add: working_def read_prop_plain)

lemma working_entries: "working n h (JRef a) \<Longrightarrow> entries h (JRef a) = props (h ! a)"
  by (simp add: working_def entries_def cell_at_def elem_props_def)

lemma working_read_entries:
  "working n h v \<Longrightarrow>
   read_prop h v k = (case map_of (entries h v) k of Some x \<Rightarrow> x | None \<Rightarrow> JUndefined)"
  by (cases v) (simp_all add: working_read working_entries, simp_all add: working_def)

lemma working_get: "working n h v \<Longrightarrow> get h v k = Inr (read_prop h v k)"
  by (cases v) (simp_all add: get_def working_def)

lemma working_assign:
  "working n h (JRef a) \<Longrightarrow> assign h (JRef a) k v = Inr (write_prop h a k v)"
  by (simp add: assign_def working_def cell_at_def)

lemma working_append: "working n h v \<Longrightarrow> working n (h @ cs) v"
  by (cases v) (simp_all add: working_def nth_append)

lemma working_write:
  "working n h v \<Longrightarrow> working n (write_prop h a k x) v"
  by (cases v) (auto simp add: working_def write_prop_def cell_at_def nth_list_update)

lemma working_spread: "n \<le> length h \<Longrightarrow> working n (snd (spread h v)) (fst (spread h v))"
  by (simp add: spread_def working_def plain_def)

lemma entries_append:
  "store_value h v \<Longrightarrow> entries (h @ cs) v = entries h v"
  by (cases v) (simp_all add: entries_def store_value_def cell_at_def nth_append)

lemma read_prop_append:
  "store_value h v \<Longrightarrow> read_prop (h @ cs) v k = read_prop h v k"
  by (cases v) (simp_all add: read_prop_def store_value_def cell_at_def nth_append)

lemma working_store_value: "working n h v \<Longrightarrow> store_value h v"
  by (cases v) (simp_all add: working_def store_value_def)

lemma entries_write_same:
  "working n h (JRef a) \<Longrightarrow> entries (write_prop h a k x) (JRef a) = put k x (entries h (JRef a))"
  by (simp add: working_def entries_def write_prop_def cell_at_def elem_props_def)

lemma entries_spread: "entries (snd (spread h v)) (fst (spread h v)) = entries h v"
  by (simp add: spread_def entries_def cell_at_def plain_def elem_props_def)

lemma store_value_mono: "store_value h v \<Longrightarrow> length h \<le> length h' \<Longrightarrow> store_value h' v"
  by (cases v) (simp_all add: store_value_def)

lemma put_set: "(k', v') \<in> set (put k v ps) \<Longrightarrow> (k', v') \<in> set ps \<or> (k' = k \<and> v' = v)"
  by (induction ps) (auto split: if_splits)

section \<open>Automatic decryption\<close>







section \<open>Withdrawal\<close>

text \<open>
  C6 on the record of the consent manager's test, where marketing consent is \<open>true\<close>
  before the call. \<open>withdrawConsent\<close> with \<open>marketing\<close> returns the record, sets the
  marketing preference to \<open>false\<close>, leaves analytics \<open>true\<close> and appends one entry to
  \<open>withdrawals\<close>. The entry's \<open>previousConsent\<close> is a new object, but its
  \<open>preferences\<close> property is the reference the current consent holds, so the marketing
  flag read through the entry is \<open>false\<close> as well: the preference flags of the snapshot
  are those after the withdrawal, not those before it.
\<close>

theorem withdrawConsent_snapshot_shares_preferences:
  "read_prop consent_store (JRef 0) ''marketing'' = JBool True
   \<and> (case withdrawConsent sample_env (world_of consent_store) (JRef 3) ''marketing'' test_request of
        Inl err \<Rightarrow> False
      | Inr (u, w) \<Rightarrow>
          (let h = heap w;
               ledger = read_prop h u ''_consent'';
               current = read_prop h ledger ''current'';
               entry = read_prop h (read_prop h ledger ''withdrawals'') ''0'';
               previous = read_prop h entry ''previousConsent''
           in u = JRef 3
              \<and> read_prop h (read_prop h current ''preferences'') ''marketing'' = JBool False
              \<and> read_prop h (read_prop h current ''preferences'') ''analytics'' = JBool True
              \<and> read_prop h (read_prop h ledger ''withdrawals'') ''length'' = JNum (Intg 1)
              \<and> previous \<noteq> current
              \<and> read_prop h previous ''purpose'' = JStr ''registration''
              \<and> read_prop h previous ''preferences'' = read_prop h current ''preferences''
              \<and> read_prop h (read_prop h previous ''preferences'') ''marketing'' = JBool False))"
  by (simp add: consent_store_def test_request_def world_of_def sample_env_def
        withdrawConsent_def store_defs Let_def dec_0 digit_char_def)

section \<open>Law resolution\<close>

text \<open>
  C7. The law set is a function of the upper-cased country alone: it starts with GDPR,
  US and CA add CCPA, BR adds LGPD, CA adds PIPEDA after CCPA, and every other country,
  an absent one included, gives exactly GDPR. The list has no duplicates, and two
  contexts whose countries differ only in letter case resolve to the same laws.
\<close>

theorem determineApplicableLaws_spec:
  "determineApplicableLaws ctx =
     (case country ctx of
        None \<Rightarrow> [''GDPR'']
      | Some c \<Rightarrow>
          if toUpperCase c = ''US'' then [''GDPR'', ''CCPA'']
          else if toUpperCase c = ''CA'' then [''GDPR'', ''CCPA'', ''PIPEDA'']
          else if toUpperCase c = ''BR'' then [''GDPR'', ''LGPD'']
          else [''GDPR''])
   \<and> hd (determineApplicableLaws ctx) = ''GDPR''
   \<and> distinct (determineApplicableLaws ctx)
   \<and> (\<forall>c c'. country ctx = Some c \<and> country ctx' = Some c' \<and> toUpperCase c = toUpperCase c'
        \<longrightarrow> determineApplicableLaws ctx' = determineApplicableLaws ctx)"
proof -
  have shape: "determineApplicableLaws x =
     (case country x of
        None \<Rightarrow> [''GDPR'']
      | Some c \<Rightarrow>
          if toUpperCase c = ''US'' then [''GDPR'', ''CCPA'']
          else if toUpperCase c = ''CA'' then [''GDPR'', ''CCPA'', ''PIPEDA'']
          else if toUpperCase c = ''BR'' then [''GDPR'', ''LGPD'']
          else [''GDPR''])" for x
  proof (cases "country x")
    case None
    then show ?thesis by (simp add: determineApplicableLaws_def)
  next
    case (Some c)
    show ?thesis
    proof (cases "c = []")
      case True
      with Some show ?thesis by (simp add: determineApplicableLaws_def toUpperCase_def)
    next
      case False
      with Some show ?thesis by (simp add: determineApplicableLaws_def Let_def)
    qed
  qed
  have first: "hd (determineApplicableLaws ctx) = ''GDPR''"
    by (simp add: shape split: option.split)
  have nodup: "distinct (determineApplicableLaws ctx)"
    by (simp add: shape split: option.split)
  have same: "\<forall>c c'. country ctx = Some c \<and> country ctx' = Some c' \<and> toUpperCase c = toUpperCase c'
        \<longrightarrow> determineApplicableLaws ctx' = determineApplicableLaws ctx"
    by (simp add: shape)
  from shape [of ctx] first nodup same show ?thesis by blast
qed

text \<open>The theorem at the countries of the specification's examples.\<close>

theorem determineApplicableLaws_spec_witness:
  "determineApplicableLaws (ctx_of (Some ''us'')) = [''GDPR'', ''CCPA'']
   \<and> determineApplicableLaws (ctx_of (Some ''Ca'')) = [''GDPR'', ''CCPA'', ''PIPEDA'']
   \<and> determineApplicableLaws (ctx_of (Some ''BR'')) = [''GDPR'', ''LGPD'']
   \<and> determineApplicableLaws (ctx_of (Some ''DE'')) = [''GDPR'']
   \<and> determineApplicableLaws (ctx_of None) = [''GDPR'']
   \<and> determineApplicableLaws (ctx_of (Some ''US'')) = determineApplicableLaws (ctx_of (Some ''us''))"
proof -
  have up: "toUpperCase ''us'' = ''US''" "toUpperCase ''Ca'' = ''CA''"
    "toUpperCase ''BR'' = ''BR''" "toUpperCase ''DE'' = ''DE''" "toUpperCase ''US'' = ''US''"
    by (simp_all add: toUpperCase_def upper_char_def)
  have a: "determineApplicableLaws (ctx_of (Some ''us'')) = [''GDPR'', ''CCPA'']"
    using determineApplicableLaws_spec [of "ctx_of (Some ''us'')" "ctx_of (Some ''US'')"]
    by (simp add: ctx_of_def empty_context_def up)
  have b: "determineApplicableLaws (ctx_of (Some ''Ca'')) = [''GDPR'', ''CCPA'', ''PIPEDA'']"
    using determineApplicableLaws_spec [of "ctx_of (Some ''Ca'')" "ctx_of (Some ''Ca'')"]
    by (simp add: ctx_of_def empty_context_def up)
  have c: "determineApplicableLaws (ctx_of (Some ''BR'')) = [''GDPR'', ''LGPD'']"
    using determineApplicableLaws_spec [of "ctx_of (Some ''BR'')" "ctx_of (Some ''BR'')"]
    by (simp add: ctx_of_def empty_context_def up)
  have d: "determineApplicableLaws (ctx_of (Some ''DE'')) = [''GDPR'']"
    using determineApplicableLaws_spec [of "ctx_of (Some ''DE'')" "ctx_of (Some ''DE'')"]
    by (simp add: ctx_of_def empty_context_def up)
  have e: "determineApplicableLaws (ctx_of None) = [''GDPR'']"
    using determineApplicableLaws_spec [of "ctx_of None" "ctx_of None"]
    by (simp add: ctx_of_def empty_context_def)
  have f: "determineApplicableLaws (ctx_of (Some ''US'')) = determineApplicableLaws (ctx_of (Some ''us''))"
    using determineApplicableLaws_spec [of "ctx_of (Some ''us'')" "ctx_of (Some ''US'')"]
    by (simp add: ctx_of_def empty_context_def up)
  from a b c d e f show ?thesis by simp
qed

section \<open>Consent validity\<close>

lemma compliant_truthy:
  "truthy (isGdprCompliantConsent h cur) \<longleftrightarrow>
     truthy cur \<and> read_prop h cur ''specific'' = JBool True
     \<and> read_prop h cur ''informed'' = JBool True
     \<and> read_prop h cur ''unambiguous'' = JBool True
     \<and> truthy (read_prop h cur ''recordedAt'') \<and> truthy (read_prop h cur ''purpose'')
     \<and> read_prop h cur ''canWithdraw'' = JBool True"
  by (simp add: isGdprCompliantConsent_def)

lemma current_of_falsy: "\<not> truthy c \<Longrightarrow> read_prop h c ''current'' = JUndefined"
  by (cases c) (simp_all add: read_prop_def indexed_def)

text \<open>
  C8, as the code has it. For a record that is an object, \<open>hasValidConsent\<close> with
  \<open>necessary\<close> returns true exactly when the record has a current consent that passes
  the compliance check (specific, informed and unambiguous true, a recorded timestamp, a
  non-empty purpose, \<open>canWithdraw\<close> true), whatever the preferences are; with any other
  processing type it returns true exactly when the current consent passes that check and
  the type's preference flag is \<open>true\<close>.
\<close>

theorem hasValidConsent_spec:
  assumes "userData \<noteq> JUndefined" and "userData \<noteq> JNull"
  shows "(let cur = read_prop h (read_prop h userData ''_consent'') ''current'';
              compliant =
                (truthy cur \<and> read_prop h cur ''specific'' = JBool True
                 \<and> read_prop h cur ''informed'' = JBool True
                 \<and> read_prop h cur ''unambiguous'' = JBool True
                 \<and> truthy (read_prop h cur ''recordedAt'')
                 \<and> truthy (read_prop h cur ''purpose'')
                 \<and> read_prop h cur ''canWithdraw'' = JBool True)
          in hasValidConsent h userData ''necessary'' = Inr compliant
             \<and> (\<forall>t. t \<noteq> ''necessary'' \<longrightarrow>
                   (hasValidConsent h userData t = Inr True) =
                   (compliant
                    \<and> read_prop h (read_prop h cur ''preferences'') (preference_key t) = JBool True)))"
proof -
  define c where "c = read_prop h userData ''_consent''"
  define cur where "cur = read_prop h c ''current''"
  have g: "get h userData ''_consent'' = Inr c"
    using assms by (simp add: get_def c_def)
  have nec: "hasValidConsent h userData ''necessary'' = Inr (truthy (isGdprCompliantConsent h cur))"
  proof (cases "truthy c")
    case False
    then have "cur = JUndefined" by (simp add: cur_def current_of_falsy)
    with False g show ?thesis
      by (simp add: hasValidConsent_def isGdprCompliantConsent_def)
  next
    case True
    with g show ?thesis
      by (simp add: hasValidConsent_def cur_def Let_def isGdprCompliantConsent_def)
  qed
  have other: "(hasValidConsent h userData t = Inr True) =
      (truthy (isGdprCompliantConsent h cur)
       \<and> read_prop h (read_prop h cur ''preferences'') (preference_key t) = JBool True)"
    if "t \<noteq> ''necessary''" for t
  proof (cases "truthy c \<and> truthy cur \<and> truthy (isGdprCompliantConsent h cur)")
    case False
    then have "hasValidConsent h userData t = Inr False"
      using g by (auto simp add: hasValidConsent_def cur_def Let_def)
    moreover have "\<not> truthy (isGdprCompliantConsent h cur)"
      using False by (auto simp add: cur_def current_of_falsy isGdprCompliantConsent_def)
    ultimately show ?thesis by simp
  next
    case True
    then show ?thesis
      using g that
      by (cases "read_prop h cur ''preferences''")
         (simp_all add: hasValidConsent_def cur_def Let_def get_def read_prop_def)
  qed
  show ?thesis
    unfolding Let_def c_def [symmetric] cur_def [symmetric] compliant_truthy [symmetric]
    using nec other by blast
qed

text \<open>
  The theorem on the record of the consent manager's test: necessary, marketing and
  analytics processing have valid consent, third-party sharing has not.
\<close>

theorem hasValidConsent_spec_witness:
  "hasValidConsent consent_store (JRef 3) ''necessary'' = Inr True
   \<and> hasValidConsent consent_store (JRef 3) ''marketing'' = Inr True
   \<and> hasValidConsent consent_store (JRef 3) ''analytics'' = Inr True
   \<and> hasValidConsent consent_store (JRef 3) ''third_party_sharing'' \<noteq> Inr True"
  using hasValidConsent_spec [of "JRef 3" consent_store]
  by (simp add: Let_def consent_store_def store_defs preference_key_def)

text \<open>
  The claim as stated fails on a record without consent: \<open>necessary\<close> is refused there.
\<close>

theorem hasValidConsent_necessary_counterexample:
  "hasValidConsent [plain []] (JRef 0) ''necessary'' = Inr False"
  by (simp add: hasValidConsent_def store_defs)

section \<open>The steps of applyLaw\<close>

lemma advance_refl: "working n (heap w) pd \<Longrightarrow> advance n w pd w pd"
  by (simp add: advance_def)

lemma advance_same:
  "working n (heap w) pd \<Longrightarrow> heap w' = heap w \<Longrightarrow> advance n w pd w' pd"
  by (simp add: advance_def)

lemma advance_working: "advance n w pd w' pd' \<Longrightarrow> working n (heap w') pd'"
  by (simp add: advance_def)

lemma advance_take: "advance n w pd w' pd' \<Longrightarrow> take n (heap w') = take n (heap w)"
  by (simp add: advance_def)

lemma advance_length: "advance n w pd w' pd' \<Longrightarrow> length (heap w) \<le> length (heap w')"
  by (simp add: advance_def)

lemma advance_other:
  "advance n w pd w' pd' \<Longrightarrow>
   k \<notin> {''_consent'', ''_deletionMetadata'', ''_ccpaRights'', ''gps''} \<Longrightarrow>
   map_of (entries (heap w') pd') k = map_of (entries (heap w) pd) k"
  by (simp add: advance_def)

lemma advance_truthy:
  "advance n w pd w' pd' \<Longrightarrow> k \<noteq> ''gps'' \<Longrightarrow> truthy (read_prop (heap w) pd k) \<Longrightarrow>
   map_of (entries (heap w') pd') k = map_of (entries (heap w) pd) k"
  by (simp add: advance_def)

lemma advance_gps:
  "advance n w pd w' pd' \<Longrightarrow>
   map_of (entries (heap w') pd') ''gps'' = map_of (entries (heap w) pd) ''gps''
   \<or> map_of (entries (heap w') pd') ''gps'' = None"
  by (simp add: advance_def)

lemma advance_values:
  "advance n w pd w' pd' \<Longrightarrow> (k, v) \<in> set (entries (heap w') pd') \<Longrightarrow>
   (k, v) \<in> set (entries (heap w) pd) \<or> store_value (heap w') v"
  by (simp add: advance_def)

lemma advance_cells:
  "advance n w pd w' pd' \<Longrightarrow> i < length (heap w) \<Longrightarrow> JRef i \<noteq> pd \<Longrightarrow> heap w' ! i = heap w ! i"
  by (simp add: advance_def)

lemma advance_same_or_new:
  "advance n w pd w' pd' \<Longrightarrow> pd' = pd \<or> \<not> store_value (heap w) pd'"
  by (simp add: advance_def)

lemma advanceI:
  assumes "working n (heap w') pd'"
    and "take n (heap w') = take n (heap w)"
    and "length (heap w) \<le> length (heap w')"
    and "\<And>k. k \<notin> {''_consent'', ''_deletionMetadata'', ''_ccpaRights'', ''gps''} \<Longrightarrow>
            map_of (entries (heap w') pd') k = map_of (entries (heap w) pd) k"
    and "\<And>k. k \<noteq> ''gps'' \<Longrightarrow> truthy (read_prop (heap w) pd k) \<Longrightarrow>
            map_of (entries (heap w') pd') k = map_of (entries (heap w) pd) k"
    and "map_of (entries (heap w') pd') ''gps'' = map_of (entries (heap w) pd) ''gps''
         \<or> map_of (entries (heap w') pd') ''gps'' = None"
    and "\<And>k v. (k, v) \<in> set (entries (heap w') pd') \<Longrightarrow>
            (k, v) \<in> set (entries (heap w) pd) \<or> store_value (heap w') v"
    and "\<And>i. i < length (heap w) \<Longrightarrow> JRef i \<noteq> pd \<Longrightarrow> heap w' ! i = heap w ! i"
    and "pd' = pd \<or> \<not> store_value (heap w) pd'"
  shows "advance n w pd w' pd'"
  unfolding advance_def
  apply (intro conjI allI impI)
  apply (rule assms(1))
  apply (rule assms(2))
  apply (rule assms(3))
  apply (erule assms(4))
  apply (erule conjE, erule (1) assms(5))
  apply (rule assms(6))
  apply (erule assms(7))
  apply (erule conjE, erule (1) assms(8))
  apply (rule assms(9))
  done

lemma advance_trans:
  assumes "working n (heap w) pd" and "advance n w pd w1 pd1" and "advance n w1 pd1 w2 pd2"
  shows "advance n w pd w2 pd2"
proof (rule advanceI)
  have w1: "working n (heap w1) pd1" using assms(2) by (rule advance_working)
  have r1: "read_prop (heap w1) pd1 k = read_prop (heap w) pd k"
    if "map_of (entries (heap w1) pd1) k = map_of (entries (heap w) pd) k" for k
    using that by (simp add: working_read_entries [OF w1] working_read_entries [OF assms(1)])
  show "working n (heap w2) pd2" using assms(3) by (rule advance_working)
  show "take n (heap w2) = take n (heap w)"
    using advance_take [OF assms(2)] advance_take [OF assms(3)] by simp
  show "length (heap w) \<le> length (heap w2)"
    using advance_length [OF assms(2)] advance_length [OF assms(3)] by simp
  show "map_of (entries (heap w2) pd2) k = map_of (entries (heap w) pd) k"
    if "k \<notin> {''_consent'', ''_deletionMetadata'', ''_ccpaRights'', ''gps''}" for k
    using advance_other [OF assms(2) that] advance_other [OF assms(3) that] by simp
  show "map_of (entries (heap w2) pd2) k = map_of (entries (heap w) pd) k"
    if "k \<noteq> ''gps''" "truthy (read_prop (heap w) pd k)" for k
  proof -
    note 1 = advance_truthy [OF assms(2) that]
    with that(2) have "truthy (read_prop (heap w1) pd1 k)" by (simp add: r1)
    from advance_truthy [OF assms(3) that(1) this] 1 show ?thesis by simp
  qed
  show "map_of (entries (heap w2) pd2) ''gps'' = map_of (entries (heap w) pd) ''gps''
         \<or> map_of (entries (heap w2) pd2) ''gps'' = None"
    using advance_gps [OF assms(2)] advance_gps [OF assms(3)] by auto
  show "(k, v) \<in> set (entries (heap w) pd) \<or> store_value (heap w2) v"
    if "(k, v) \<in> set (entries (heap w2) pd2)" for k v
  proof -
    from advance_values [OF assms(3) that]
    show ?thesis
    proof
      assume "(k, v) \<in> set (entries (heap w1) pd1)"
      from advance_values [OF assms(2) this] show ?thesis
        using store_value_mono [OF _ advance_length [OF assms(3)]] by auto
    next
      assume "store_value (heap w2) v"
      then show ?thesis by simp
    qed
  qed
  show "heap w2 ! i = heap w ! i" if "i < length (heap w)" "JRef i \<noteq> pd" for i
  proof -
    have "JRef i \<noteq> pd1"
      using advance_same_or_new [OF assms(2)] that by (auto simp add: store_value_def)
    moreover have "i < length (heap w1)"
      using that(1) advance_length [OF assms(2)] by simp
    ultimately have "heap w2 ! i = heap w1 ! i"
      using assms(3) by (simp add: advance_cells)
    with advance_cells [OF assms(2) that] show ?thesis by simp
  qed
  show "pd2 = pd \<or> \<not> store_value (heap w) pd2"
    using advance_same_or_new [OF assms(2)] advance_same_or_new [OF assms(3)]
      store_value_mono [OF _ advance_length [OF assms(2)], of pd2]
    by auto
qed

lemma recordConsent_fresh:
  assumes "working n (heap w) (JRef a)"
    and "\<not> truthy (read_prop (heap w) (JRef a) ''_consent'')"
  shows "recordConsent E w (JRef a) opts rc =
     Inr (JRef a,
          \<lparr>heap = write_prop
                    (heap w @ [consent_preferences opts,
                               consent_record E (tick w) opts rc (JRef (length (heap w))),
                               array [],
                               plain [(''current'', JRef (length (heap w) + 1)),
                                      (''history'', JRef (length (heap w) + 2))]])
                    a ''_consent'' (JRef (length (heap w) + 3)),
           tick = tick w + 1\<rparr>)"
proof -
  let ?h1 = "heap w @ [consent_preferences opts,
                       consent_record E (tick w) opts rc (JRef (length (heap w)))]"
  have sv: "store_value (heap w) (JRef a)"
    using assms(1) by (rule working_store_value)
  have g: "get ?h1 (JRef a) ''_consent'' = Inr (read_prop (heap w) (JRef a) ''_consent'')"
    by (simp add: working_get [OF working_append [OF assms(1)]] read_prop_append [OF sv])
  have asg: "assign (heap w @ cs) (JRef a) k v = Inr (write_prop (heap w @ cs) a k v)" for cs k v
    by (rule working_assign [OF working_append [OF assms(1)]])
  show ?thesis
    unfolding recordConsent_def Let_def
    by (simp add: g assms(2) asg numeral_3_eq_3)
qed

lemma take_append_below: "n \<le> length h \<Longrightarrow> take n (h @ cs) = take n h"
  by simp

text \<open>Writing a new object under one of the metadata keys of the working record.\<close>

lemma advance_set_meta:
  assumes "working n (heap w) (JRef a)"
    and "\<not> truthy (read_prop (heap w) (JRef a) key)"
    and "key \<in> {''_consent'', ''_deletionMetadata'', ''_ccpaRights''}"
    and "b < length (heap w @ cs)"
    and "heap w' = write_prop (heap w @ cs) a key (JRef b)"
  shows "advance n w (JRef a) w' (JRef a)"
    and "read_prop (heap w') (JRef a) key = JRef b"
    and "entries (heap w') (JRef a) = put key (JRef b) (entries (heap w) (JRef a))"
proof -
  have wa: "working n (heap w @ cs) (JRef a)"
    using assms(1) by (rule working_append)
  have w': "working n (heap w') (JRef a)"
    unfolding assms(5) using wa by (rule working_write)
  have na: "n \<le> a" "a < length (heap w)"
    using assms(1) by (simp_all add: working_def)
  have es: "entries (heap w') (JRef a) = put key (JRef b) (entries (heap w) (JRef a))"
    unfolding assms(5)
    by (simp add: entries_write_same [OF wa] entries_append [OF working_store_value [OF assms(1)]])
  show "entries (heap w') (JRef a) = put key (JRef b) (entries (heap w) (JRef a))"
    by (rule es)
  show "read_prop (heap w') (JRef a) key = JRef b"
    by (simp add: working_read_entries [OF w'] es put_map_of)
  show "advance n w (JRef a) w' (JRef a)"
  proof (rule advanceI)
    show "working n (heap w') (JRef a)" by (rule w')
    show "take n (heap w') = take n (heap w)"
      unfolding assms(5) using na by (simp add: write_prop_take)
    show "length (heap w) \<le> length (heap w')"
      unfolding assms(5) by simp
    show "map_of (entries (heap w') (JRef a)) k = map_of (entries (heap w) (JRef a)) k"
      if "k \<notin> {''_consent'', ''_deletionMetadata'', ''_ccpaRights'', ''gps''}" for k
      using that assms(3) by (auto simp add: es put_map_of)
    show "map_of (entries (heap w') (JRef a)) k = map_of (entries (heap w) (JRef a)) k"
      if "k \<noteq> ''gps''" "truthy (read_prop (heap w) (JRef a) k)" for k
      using that assms(2) by (auto simp add: es put_map_of)
    show "map_of (entries (heap w') (JRef a)) ''gps'' = map_of (entries (heap w) (JRef a)) ''gps''
         \<or> map_of (entries (heap w') (JRef a)) ''gps'' = None"
      using assms(3) by (auto simp add: es put_map_of)
    show "(k, v) \<in> set (entries (heap w) (JRef a)) \<or> store_value (heap w') v"
      if "(k, v) \<in> set (entries (heap w') (JRef a))" for k v
      using put_set [OF that [unfolded es]] assms(4)
      by (auto simp add: store_value_def assms(5))
    show "heap w' ! i = heap w ! i" if "i < length (heap w)" "JRef i \<noteq> JRef a" for i
      using that by (simp add: assms(5) write_prop_def nth_append)
    show "JRef a = JRef a \<or> \<not> store_value (heap w) (JRef a)" by simp
  qed
qed

text \<open>Article 6.\<close>

lemma gdpr_consent_run:
  assumes "working n (heap w) pd"
  shows "\<exists>pd' acts w'. gdpr_consent E ctx pd w = Inr ((pd', acts), w')
           \<and> advance n w pd w' pd'
           \<and> truthy (read_prop (heap w') pd' ''_consent'')
           \<and> (truthy (read_prop (heap w) pd ''_consent'') \<longrightarrow> pd' = pd \<and> w' = w \<and> acts = [])"
proof -
  from working_ref [OF assms] obtain a where pd: "pd = JRef a" by blast
  show ?thesis
  proof (cases "truthy (read_prop (heap w) pd ''_consent'')")
    case True
    then show ?thesis
      using assms by (simp add: gdpr_consent_def working_get advance_refl)
  next
    case False
    let ?cs = "[consent_preferences (gdpr_consent_options ctx),
                consent_record E (tick w) (gdpr_consent_options ctx) (gdpr_request_context ctx)
                  (JRef (length (heap w))),
                array [],
                plain [(''current'', JRef (length (heap w) + 1)),
                       (''history'', JRef (length (heap w) + 2))]]"
    let ?w' = "\<lparr>heap = write_prop (heap w @ ?cs) a ''_consent'' (JRef (length (heap w) + 3)),
                tick = tick w + 1\<rparr>"
    have run: "gdpr_consent E ctx pd w = Inr ((pd, [''gdpr_consent_recorded'']), ?w')"
      using False assms
      by (simp add: gdpr_consent_def working_get pd recordConsent_fresh [OF assms [unfolded pd]])
    have b: "length (heap w) + 3 < length (heap w @ ?cs)" by simp
    have h': "heap ?w' = write_prop (heap w @ ?cs) a ''_consent'' (JRef (length (heap w) + 3))"
      by simp
    note m = advance_set_meta [OF assms [unfolded pd] False [unfolded pd] _ b h']
    have "advance n w pd ?w' pd" unfolding pd by (rule m(1)) simp
    moreover have "truthy (read_prop (heap ?w') pd ''_consent'')"
      unfolding pd using m(2) by simp
    ultimately show ?thesis
      using run False by blast
  qed
qed


text \<open>Article 5.\<close>

lemma has_prop_working:
  "working n h v \<Longrightarrow> has_prop h v k = Inr (map_of (entries h v) k \<noteq> None)"
  by (cases v) (simp_all add: working_def has_prop_def entries_def cell_at_def elem_props_def)

lemma some_in_working:
  "working n h v \<Longrightarrow> some_in h v fs = Inr (\<exists>f \<in> set fs. map_of (entries h v) f \<noteq> None)"
  by (induction fs) (auto simp add: has_prop_working split: bool.splits)

lemma hasExcessiveData_working:
  "working n h v \<Longrightarrow> hasExcessiveData h v = Inr (excessive h v)"
  unfolding hasExcessiveData_def excessive_def by (rule some_in_working)

lemma canBeDeleted_working: "working n h v \<Longrightarrow> \<exists>b. canBeDeleted h v = Inr b"
  by (simp add: canBeDeleted_def some_in_working del: some_in.simps)

lemma calculateRetentionPeriod_working:
  "working n h v \<Longrightarrow> \<exists>r. calculateRetentionPeriod h v = Inr r"
  by (cases v) (simp_all add: working_def calculateRetentionPeriod_def classifyData_def)

lemma advance_copy:
  assumes "working n (heap w) pd"
    and "heap w' = heap w @ [plain (entries (heap w) pd)]"
  shows "advance n w pd w' (JRef (length (heap w)))"
    and "entries (heap w') (JRef (length (heap w))) = entries (heap w) pd"
proof -
  from working_ref [OF assms(1)] obtain a where pd: "pd = JRef a" by blast
  have na: "n \<le> a" "a < length (heap w)"
    using assms(1) by (simp_all add: working_def pd)
  have es: "entries (heap w') (JRef (length (heap w))) = entries (heap w) pd"
    by (simp add: assms(2) entries_def cell_at_def plain_def elem_props_def)
  show "entries (heap w') (JRef (length (heap w))) = entries (heap w) pd" by (rule es)
  show "advance n w pd w' (JRef (length (heap w)))"
  proof (rule advanceI)
    show "working n (heap w') (JRef (length (heap w)))"
      using na by (simp add: assms(2) working_def plain_def)
    show "take n (heap w') = take n (heap w)"
      using na by (simp add: assms(2))
    show "length (heap w) \<le> length (heap w')"
      by (simp add: assms(2))
    show "(k, v) \<in> set (entries (heap w) pd) \<or> store_value (heap w') v"
      if "(k, v) \<in> set (entries (heap w') (JRef (length (heap w))))" for k v
      using that by (simp add: es)
    show "heap w' ! i = heap w ! i" if "i < length (heap w)" for i
      using that by (simp add: assms(2) nth_append)
    show "JRef (length (heap w)) = pd \<or> \<not> store_value (heap w) (JRef (length (heap w)))"
      by (simp add: store_value_def)
  qed (simp_all add: es)
qed

lemma advance_copy_delete:
  assumes "working n (heap w) pd"
    and "heap w' = delete_prop (heap w @ [plain (entries (heap w) pd)]) (length (heap w)) ''gps''"
  shows "advance n w pd w' (JRef (length (heap w)))"
    and "\<not> truthy (read_prop (heap w') (JRef (length (heap w))) ''gps'')"
proof -
  from working_ref [OF assms(1)] obtain a where pd: "pd = JRef a" by blast
  have na: "n \<le> a" "a < length (heap w)"
    using assms(1) by (simp_all add: working_def pd)
  have es: "entries (heap w') (JRef (length (heap w)))
            = filter (\<lambda>p. fst p \<noteq> ''gps'') (entries (heap w) pd)"
    by (simp add: assms(2) delete_prop_def entries_def cell_at_def plain_def elem_props_def)
  have w': "working n (heap w') (JRef (length (heap w)))"
    using na by (simp add: assms(2) delete_prop_def working_def plain_def cell_at_def)
  have look: "map_of (filter (\<lambda>p. fst p \<noteq> ''gps'') ps) k
              = (if k = ''gps'' then None else map_of ps k)" for ps :: "(string \<times> jsval) list" and k
    by (induction ps) auto
  show "\<not> truthy (read_prop (heap w') (JRef (length (heap w))) ''gps'')"
    by (simp add: working_read_entries [OF w'] es look)
  show "advance n w pd w' (JRef (length (heap w)))"
  proof (rule advanceI)
    show "working n (heap w') (JRef (length (heap w)))" by (rule w')
    show "take n (heap w') = take n (heap w)"
      using na by (simp add: assms(2) delete_prop_def)
    show "length (heap w) \<le> length (heap w')"
      by (simp add: assms(2) delete_prop_def)
    show "(k, v) \<in> set (entries (heap w) pd) \<or> store_value (heap w') v"
      if "(k, v) \<in> set (entries (heap w') (JRef (length (heap w))))" for k v
      using that by (simp add: es)
    show "heap w' ! i = heap w ! i" if "i < length (heap w)" for i
      using that by (simp add: assms(2) delete_prop_def nth_append)
    show "JRef (length (heap w)) = pd \<or> \<not> store_value (heap w) (JRef (length (heap w)))"
      by (simp add: store_value_def)
  qed (simp_all add: es look)
qed

lemma gdpr_minimize_run:
  assumes "working n (heap w) pd" and "working n (heap w) data"
  shows "\<exists>pd' acts w'. gdpr_minimize data ctx pd w = Inr ((pd', acts), w')
           \<and> advance n w pd w' pd'
           \<and> set acts \<subseteq> {''gdpr_data_minimization_applied''}
           \<and> (excessive (heap w) data \<and> action ctx = Some ''registration''
                \<longrightarrow> \<not> truthy (read_prop (heap w') pd' ''gps''))
           \<and> (\<not> (excessive (heap w) data \<and> action ctx = Some ''registration''
                   \<and> truthy (read_prop (heap w) pd ''gps''))
                \<longrightarrow> entries (heap w') pd' = entries (heap w) pd)"
proof (cases "excessive (heap w) data")
  case False
  then show ?thesis
    using assms by (simp add: gdpr_minimize_def hasExcessiveData_working advance_refl)
next
  case True
  note ex = this
  let ?h1 = "heap w @ [plain (entries (heap w) pd)]"
  let ?m = "JRef (length (heap w))"
  have "read_prop ?h1 ?m ''gps''
        = (case map_of (entries (heap w) pd) ''gps'' of Some x \<Rightarrow> x | None \<Rightarrow> JUndefined)"
    by (simp add: read_prop_def cell_at_def plain_def elem_props_def split: option.split)
  then have rd: "read_prop ?h1 ?m ''gps'' = read_prop (heap w) pd ''gps''"
    by (simp only: working_read_entries [OF assms(1)])
  show ?thesis
  proof (cases "action ctx = Some ''registration'' \<and> truthy (read_prop (heap w) pd ''gps'')")
    case True
    let ?w' = "w\<lparr>heap := delete_prop ?h1 (length (heap w)) ''gps''\<rparr>"
    have run: "gdpr_minimize data ctx pd w
               = Inr ((?m, [''gdpr_data_minimization_applied'']), ?w')"
      using ex True assms
      by (simp add: gdpr_minimize_def hasExcessiveData_working minimizeData_def spread_def rd)
    note d = advance_copy_delete [OF assms(1), of ?w']
    have "advance n w pd ?w' ?m" by (rule d(1)) simp
    moreover have "\<not> truthy (read_prop (heap ?w') ?m ''gps'')" by (rule d(2)) simp
    ultimately show ?thesis
      using run ex True by simp
  next
    case False
    let ?w' = "w\<lparr>heap := ?h1\<rparr>"
    have run: "gdpr_minimize data ctx pd w
               = Inr ((?m, [''gdpr_data_minimization_applied'']), ?w')"
      using ex False assms
      by (auto simp add: gdpr_minimize_def hasExcessiveData_working minimizeData_def spread_def rd)
    note c = advance_copy [OF assms(1), of ?w']
    have a: "advance n w pd ?w' ?m" by (rule c(1)) simp
    have e: "entries (heap ?w') ?m = entries (heap w) pd" by (rule c(2)) simp
    have "\<not> truthy (read_prop (heap ?w') ?m ''gps'')" if "action ctx = Some ''registration''"
      using False that rd by simp
    then show ?thesis
      using run a e by simp
  qed
qed

text \<open>Article 17.\<close>

lemma gdpr_deletion_run:
  assumes "working n (heap w) pd"
  shows "\<exists>pd' acts w'. gdpr_deletion pd w = Inr ((pd', acts), w')
           \<and> advance n w pd w' pd'
           \<and> truthy (read_prop (heap w') pd' ''_deletionMetadata'')
           \<and> (truthy (read_prop (heap w) pd ''_deletionMetadata'')
                \<longrightarrow> pd' = pd \<and> w' = w \<and> acts = [])"
proof -
  from working_ref [OF assms] obtain a where pd: "pd = JRef a" by blast
  show ?thesis
  proof (cases "truthy (read_prop (heap w) pd ''_deletionMetadata'')")
    case True
    then show ?thesis
      using assms by (simp add: gdpr_deletion_def working_get advance_refl)
  next
    case False
    from canBeDeleted_working [OF assms] obtain deletable
      where cd: "canBeDeleted (heap w) pd = Inr deletable" by blast
    from calculateRetentionPeriod_working [OF assms] obtain retention
      where rp: "calculateRetentionPeriod (heap w) pd = Inr retention" by blast
    let ?cs = "[plain [(''canBeDeleted'', JBool deletable),
                       (''retentionPeriod'', JNum retention),
                       (''deletionProcedure'', JStr ''anonymize_sensitive_keep_anonymous''),
                       (''consentWithdrawalImpact'', JStr ''stop_processing_immediately'')]]"
    let ?w' = "w\<lparr>heap := write_prop (heap w @ ?cs) a ''_deletionMetadata''
                            (JRef (length (heap w)))\<rparr>"
    have run: "gdpr_deletion pd w = Inr ((pd, [''gdpr_deletion_metadata_added'']), ?w')"
      using False assms
      by (simp add: gdpr_deletion_def Let_def working_get cd [unfolded pd] rp [unfolded pd] pd
            working_assign [OF working_append [OF assms [unfolded pd]]])
    have b: "length (heap w) < length (heap w @ ?cs)" by simp
    have h': "heap ?w' = write_prop (heap w @ ?cs) a ''_deletionMetadata''
                           (JRef (length (heap w)))"
      by simp
    note m = advance_set_meta [OF assms [unfolded pd] False [unfolded pd] _ b h']
    have "advance n w pd ?w' pd" unfolding pd by (rule m(1)) simp
    moreover have "truthy (read_prop (heap ?w') pd ''_deletionMetadata'')"
      unfolding pd using m(2) by simp
    ultimately show ?thesis
      using run False by blast
  qed
qed

text \<open>The case \<open>CCPA\<close>.\<close>

lemma applyCCPA_run:
  assumes "working n (heap w) pd"
  shows "\<exists>pd' acts w'. applyCCPA E w pd = Inr ((pd', acts), w')
           \<and> advance n w pd w' pd'
           \<and> truthy (read_prop (heap w') pd' ''_ccpaRights'')
           \<and> (truthy (read_prop (heap w) pd ''_ccpaRights'')
                \<longrightarrow> pd' = pd \<and> w' = w \<and> acts = [])"
proof -
  from working_ref [OF assms] obtain a where pd: "pd = JRef a" by blast
  show ?thesis
  proof (cases "truthy (read_prop (heap w) pd ''_ccpaRights'')")
    case True
    then show ?thesis
      using assms by (simp add: applyCCPA_def working_get advance_refl)
  next
    case False
    let ?cs = "[\<lparr>props = [], hidden = [], kind = DateMs (clock E (tick w))\<rparr>,
                plain [(''optOutOfSale'', JBool True),
                       (''verified'', JBool False),
                       (''lastUpdated'', JRef (length (heap w))),
                       (''method'', JStr ''user_request'')]]"
    let ?w' = "\<lparr>heap = write_prop (heap w @ ?cs) a ''_ccpaRights'' (JRef (length (heap w) + 1)),
                tick = tick w + 1\<rparr>"
    have run: "applyCCPA E w pd = Inr ((pd, [''ccpa_rights_metadata_added'']), ?w')"
      using False assms
      by (simp add: applyCCPA_def Let_def working_get pd
            working_assign [OF working_append [OF assms [unfolded pd]]])
    have b: "length (heap w) + 1 < length (heap w @ ?cs)" by simp
    have h': "heap ?w' = write_prop (heap w @ ?cs) a ''_ccpaRights'' (JRef (length (heap w) + 1))"
      by simp
    note m = advance_set_meta [OF assms [unfolded pd] False [unfolded pd] _ b h']
    have "advance n w pd ?w' pd" unfolding pd by (rule m(1)) simp
    moreover have "truthy (read_prop (heap ?w') pd ''_ccpaRights'')"
      unfolding pd using m(2) by simp
    ultimately show ?thesis
      using run False by blast
  qed
qed

subsection \<open>A law, and the loop over the laws\<close>

lemma advance_read_truthy:
  assumes "working n (heap w) pd" and "advance n w pd w' pd'"
    and "k \<noteq> ''gps''" and "truthy (read_prop (heap w) pd k)"
  shows "read_prop (heap w') pd' k = read_prop (heap w) pd k"
  using advance_truthy [OF assms(2,3,4)]
  by (simp add: working_read_entries [OF assms(1)]
        working_read_entries [OF advance_working [OF assms(2)]])

lemma advance_read_other:
  assumes "working n (heap w) pd" and "advance n w pd w' pd'"
    and "k \<notin> {''_consent'', ''_deletionMetadata'', ''_ccpaRights'', ''gps''}"
  shows "read_prop (heap w') pd' k = read_prop (heap w) pd k"
  using advance_other [OF assms(2,3)]
  by (simp add: working_read_entries [OF assms(1)]
        working_read_entries [OF advance_working [OF assms(2)]])

lemma advance_gps_falsy:
  assumes "working n (heap w) pd" and "advance n w pd w' pd'"
    and "\<not> truthy (read_prop (heap w) pd ''gps'')"
  shows "\<not> truthy (read_prop (heap w') pd' ''gps'')"
  using advance_gps [OF assms(2)] assms(3)
  by (auto simp add: working_read_entries [OF assms(1)]
        working_read_entries [OF advance_working [OF assms(2)]])

lemma advance_excessive:
  "advance n w pd w' pd' \<Longrightarrow> excessive (heap w') pd' = excessive (heap w) pd"
  by (simp add: excessive_def advance_other)

lemma entries_read:
  "working n h v \<Longrightarrow> working n' h' v' \<Longrightarrow> entries h' v' = entries h v \<Longrightarrow>
   read_prop h' v' k = read_prop h v k"
  by (simp add: working_read_entries)

lemma law_met_advance:
  assumes "working n (heap w) pd" and "advance n w pd w' pd'" and "law_met ctx law (heap w) pd"
  shows "law_met ctx law (heap w') pd'"
  using assms(3) advance_gps_falsy [OF assms(1,2)]
  by (auto simp add: law_met_def advance_excessive [OF assms(2)]
        advance_read_truthy [OF assms(1,2)])

text \<open>An object other than the working record stays as it is.\<close>

lemma advance_bystander:
  assumes "advance n w pd w' pd'" and "working n (heap w) data" and "data \<noteq> pd"
  shows "working n (heap w') data" and "entries (heap w') data = entries (heap w) data"
proof -
  from working_ref [OF assms(2)] obtain d where data: "data = JRef d" by blast
  have d: "d < length (heap w)" using assms(2) by (simp add: data working_def)
  have c: "heap w' ! d = heap w ! d"
    using assms(1) d assms(3) [unfolded data] by (rule advance_cells)
  have l: "d < length (heap w')" using d advance_length [OF assms(1)] by simp
  show "working n (heap w') data"
    using assms(2) l by (simp add: data working_def c)
  show "entries (heap w') data = entries (heap w) data"
    using d l by (simp add: data entries_def cell_at_def c)
qed

lemma applyGDPR_run:
  assumes pd: "working n (heap w) pd" and data: "working n (heap w) data"
    and ne: "data \<noteq> pd" and copy: "entries (heap w) pd = entries (heap w) data"
  shows "\<exists>pd' acts w'. applyGDPR E w data pd ctx = Inr ((pd', acts), w')
           \<and> advance n w pd w' pd'
           \<and> law_met ctx ''GDPR'' (heap w') pd'
           \<and> (law_met ctx ''GDPR'' (heap w) pd \<longrightarrow>
                entries (heap w') pd' = entries (heap w) pd
                \<and> set acts \<subseteq> {''gdpr_data_minimization_applied''})"
proof -
  from gdpr_consent_run [OF pd, of E ctx] obtain pd1 acts1 w1
    where r1: "gdpr_consent E ctx pd w = Inr ((pd1, acts1), w1)"
      and a1: "advance n w pd w1 pd1"
      and c1: "truthy (read_prop (heap w1) pd1 ''_consent'')"
      and s1: "truthy (read_prop (heap w) pd ''_consent'') \<longrightarrow> pd1 = pd \<and> w1 = w \<and> acts1 = []"
    by blast
  have p1: "working n (heap w1) pd1" using a1 by (rule advance_working)
  note b1 = advance_bystander [OF a1 data ne]
  have x1: "excessive (heap w1) data = excessive (heap w) pd"
    by (simp add: excessive_def b1(2) copy)
  from gdpr_minimize_run [OF p1 b1(1), of ctx] obtain pd2 acts2 w2
    where r2: "gdpr_minimize data ctx pd1 w1 = Inr ((pd2, acts2), w2)"
      and a2: "advance n w1 pd1 w2 pd2"
      and m2: "set acts2 \<subseteq> {''gdpr_data_minimization_applied''}"
      and g2: "excessive (heap w1) data \<and> action ctx = Some ''registration''
                 \<longrightarrow> \<not> truthy (read_prop (heap w2) pd2 ''gps'')"
      and s2: "\<not> (excessive (heap w1) data \<and> action ctx = Some ''registration''
                   \<and> truthy (read_prop (heap w1) pd1 ''gps''))
                 \<longrightarrow> entries (heap w2) pd2 = entries (heap w1) pd1"
    by blast
  have p2: "working n (heap w2) pd2" using a2 by (rule advance_working)
  from gdpr_deletion_run [OF p2] obtain pd3 acts3 w3
    where r3: "gdpr_deletion pd2 w2 = Inr ((pd3, acts3), w3)"
      and a3: "advance n w2 pd2 w3 pd3"
      and d3: "truthy (read_prop (heap w3) pd3 ''_deletionMetadata'')"
      and s3: "truthy (read_prop (heap w2) pd2 ''_deletionMetadata'')
                 \<longrightarrow> pd3 = pd2 \<and> w3 = w2 \<and> acts3 = []"
    by blast
  have run: "applyGDPR E w data pd ctx = Inr ((pd3, (acts1 @ acts2) @ acts3), w3)"
    by (simp add: applyGDPR_def and_then_def r1 r2 r3)
  have a12: "advance n w pd w2 pd2" using pd a1 a2 by (rule advance_trans)
  have a13: "advance n w pd w3 pd3" using pd a12 a3 by (rule advance_trans)
  have a23: "advance n w1 pd1 w3 pd3" using p1 a2 a3 by (rule advance_trans)
  have c3: "truthy (read_prop (heap w3) pd3 ''_consent'')"
    using c1 by (simp add: advance_read_truthy [OF p1 a23])
  have x3: "excessive (heap w3) pd3 = excessive (heap w) pd"
    using a13 by (rule advance_excessive)
  have g3: "\<not> truthy (read_prop (heap w3) pd3 ''gps'')"
    if "excessive (heap w) pd" "action ctx = Some ''registration''"
    using advance_gps_falsy [OF p2 a3] g2 that x1 by simp
  have met: "law_met ctx ''GDPR'' (heap w3) pd3"
    using c3 d3 g3 by (auto simp add: law_met_def x3)
  have still: "entries (heap w3) pd3 = entries (heap w) pd
               \<and> set ((acts1 @ acts2) @ acts3) \<subseteq> {''gdpr_data_minimization_applied''}"
    if "law_met ctx ''GDPR'' (heap w) pd"
  proof -
    from that have t: "truthy (read_prop (heap w) pd ''_consent'')"
      and dm: "truthy (read_prop (heap w) pd ''_deletionMetadata'')"
      and g: "\<not> (excessive (heap w) pd \<and> action ctx = Some ''registration''
                 \<and> truthy (read_prop (heap w) pd ''gps''))"
      by (simp_all add: law_met_def)
    from s1 t have e1: "pd1 = pd" "w1 = w" "acts1 = []" by simp_all
    from s2 g x1 have e2: "entries (heap w2) pd2 = entries (heap w) pd"
      by (simp add: e1)
    have "read_prop (heap w2) pd2 ''_deletionMetadata''
          = read_prop (heap w) pd ''_deletionMetadata''"
      using pd p2 e2 by (rule entries_read)
    with s3 dm have e3: "pd3 = pd2" "w3 = w2" "acts3 = []" by simp_all
    show ?thesis using e2 m2 by (simp add: e1 e3)
  qed
  show ?thesis
    using run a13 met still by blast
qed

lemma applyLaw_run:
  assumes "working n (heap w) data"
  shows "\<exists>pd' acts w'. applyLaw E w data law ctx = Inr ((pd', acts), w')
           \<and> advance n w data w' pd'
           \<and> law_met ctx law (heap w') pd'
           \<and> (law_met ctx law (heap w) data \<longrightarrow>
                entries (heap w') pd' = entries (heap w) data
                \<and> set acts \<subseteq> {''gdpr_data_minimization_applied''})"
proof -
  let ?pd0 = "JRef (length (heap w))"
  let ?w0 = "w\<lparr>heap := heap w @ [plain (entries (heap w) data)]\<rparr>"
  note c = advance_copy [OF assms, of ?w0]
  have a0: "advance n w data ?w0 ?pd0" by (rule c(1)) simp
  have e0: "entries (heap ?w0) ?pd0 = entries (heap w) data" by (rule c(2)) simp
  have p0: "working n (heap ?w0) ?pd0" using a0 by (rule advance_working)
  have d0: "working n (heap ?w0) data" using working_append [OF assms] by simp
  have ed: "entries (heap ?w0) data = entries (heap w) data"
    using entries_append [OF working_store_value [OF assms]] by simp
  have ne: "data \<noteq> ?pd0" using assms by (auto simp add: working_def)
  have m0: "law_met ctx law (heap ?w0) ?pd0" if "law_met ctx law (heap w) data"
    using assms a0 that by (rule law_met_advance)
  consider (gdpr) "law = ''GDPR''" | (ccpa) "law = ''CCPA''"
    | (other) "law \<noteq> ''GDPR''" "law \<noteq> ''CCPA''" by blast
  then show ?thesis
  proof cases
    case gdpr
    from applyGDPR_run [OF p0 d0 ne, of E ctx] e0 ed obtain pd' acts w'
      where r: "applyGDPR E ?w0 data ?pd0 ctx = Inr ((pd', acts), w')"
        and a: "advance n ?w0 ?pd0 w' pd'"
        and m: "law_met ctx ''GDPR'' (heap w') pd'"
        and s: "law_met ctx ''GDPR'' (heap ?w0) ?pd0 \<longrightarrow>
                  entries (heap w') pd' = entries (heap ?w0) ?pd0
                  \<and> set acts \<subseteq> {''gdpr_data_minimization_applied''}"
      by auto
    have run: "applyLaw E w data law ctx = Inr ((pd', acts), w')"
      using r by (simp add: applyLaw_def spread_def gdpr)
    have "advance n w data w' pd'" using assms a0 a by (rule advance_trans)
    then show ?thesis
      using run m s m0 e0 unfolding gdpr by auto
  next
    case ccpa
    from applyCCPA_run [OF p0, of E] obtain pd' acts w'
      where r: "applyCCPA E ?w0 ?pd0 = Inr ((pd', acts), w')"
        and a: "advance n ?w0 ?pd0 w' pd'"
        and t: "truthy (read_prop (heap w') pd' ''_ccpaRights'')"
        and s: "truthy (read_prop (heap ?w0) ?pd0 ''_ccpaRights'')
                  \<longrightarrow> pd' = ?pd0 \<and> w' = ?w0 \<and> acts = []"
      by blast
    have run: "applyLaw E w data law ctx = Inr ((pd', acts), w')"
      using r by (simp add: applyLaw_def spread_def ccpa)
    have adv: "advance n w data w' pd'" using assms a0 a by (rule advance_trans)
    have met: "law_met ctx law (heap w') pd'"
      using t by (simp add: law_met_def ccpa)
    have "entries (heap w') pd' = entries (heap w) data \<and> acts = []"
      if "law_met ctx law (heap w) data"
      using m0 [OF that] s e0 by (auto simp add: law_met_def ccpa)
    then show ?thesis
      using run adv met by auto
  next
    case other
    have run: "applyLaw E w data law ctx = Inr ((?pd0, []), ?w0)"
      using other by (simp add: applyLaw_def spread_def)
    have "law_met ctx law (heap ?w0) ?pd0"
      using other by (simp add: law_met_def)
    then show ?thesis
      using run a0 e0 by auto
  qed
qed

lemma apply_laws_run:
  "working n (heap w) pd \<Longrightarrow>
   \<exists>pd' acts w'. apply_laws E ctx ls pd w = Inr ((pd', acts), w')
     \<and> advance n w pd w' pd'
     \<and> settled ctx ls (heap w') pd'
     \<and> (settled ctx ls (heap w) pd \<longrightarrow>
          entries (heap w') pd' = entries (heap w) pd
          \<and> set acts \<subseteq> {''gdpr_data_minimization_applied''})"
proof (induction ls arbitrary: pd w)
  case Nil
  then show ?case by (simp add: settled_def advance_refl)
next
  case (Cons law ls)
  from applyLaw_run [OF Cons.prems, of E law ctx] obtain pd1 acts1 w1
    where r1: "applyLaw E w pd law ctx = Inr ((pd1, acts1), w1)"
      and a1: "advance n w pd w1 pd1"
      and m1: "law_met ctx law (heap w1) pd1"
      and s1: "law_met ctx law (heap w) pd \<longrightarrow>
                 entries (heap w1) pd1 = entries (heap w) pd
                 \<and> set acts1 \<subseteq> {''gdpr_data_minimization_applied''}"
    by blast
  have p1: "working n (heap w1) pd1" using a1 by (rule advance_working)
  from Cons.IH [OF p1] obtain pd2 acts2 w2
    where r2: "apply_laws E ctx ls pd1 w1 = Inr ((pd2, acts2), w2)"
      and a2: "advance n w1 pd1 w2 pd2"
      and m2: "settled ctx ls (heap w2) pd2"
      and s2: "settled ctx ls (heap w1) pd1 \<longrightarrow>
                 entries (heap w2) pd2 = entries (heap w1) pd1
                 \<and> set acts2 \<subseteq> {''gdpr_data_minimization_applied''}"
    by blast
  have run: "apply_laws E ctx (law # ls) pd w = Inr ((pd2, acts1 @ acts2), w2)"
    by (simp add: and_then_def r1 r2)
  have adv: "advance n w pd w2 pd2" using Cons.prems a1 a2 by (rule advance_trans)
  have met: "settled ctx (law # ls) (heap w2) pd2"
    using m2 law_met_advance [OF p1 a2 m1] by (simp add: settled_def)
  have still: "entries (heap w2) pd2 = entries (heap w) pd
               \<and> set (acts1 @ acts2) \<subseteq> {''gdpr_data_minimization_applied''}"
    if "settled ctx (law # ls) (heap w) pd"
  proof -
    from that have l: "law_met ctx law (heap w) pd" and r: "settled ctx ls (heap w) pd"
      by (simp_all add: settled_def)
    have "law_met ctx l' (heap w1) pd1" if "l' \<in> set ls" for l'
      using Cons.prems a1 r that by (auto simp add: settled_def intro: law_met_advance)
    then have "settled ctx ls (heap w1) pd1" by (simp add: settled_def)
    with s1 s2 l show ?thesis by simp
  qed
  show ?case
    using run adv met still by blast
qed

subsection \<open>The encryption loop\<close>

lemma sealing_working: "sealing n d w w' \<Longrightarrow> working n (heap w') (JRef d)"
  by (simp add: sealing_def)

lemma sealing_length: "sealing n d w w' \<Longrightarrow> length (heap w) \<le> length (heap w')"
  by (simp add: sealing_def)

lemma sealing_cells:
  "sealing n d w w' \<Longrightarrow> i < length (heap w) \<Longrightarrow> i \<noteq> d \<Longrightarrow> heap w' ! i = heap w ! i"
  by (simp add: sealing_def)

lemma sealing_keys:
  "sealing n d w w' \<Longrightarrow> map fst (entries (heap w') (JRef d)) = map fst (entries (heap w) (JRef d))"
  by (simp add: sealing_def)

lemma sealing_value:
  "sealing n d w w' \<Longrightarrow>
   map_of (entries (heap w') (JRef d)) k = map_of (entries (heap w) (JRef d)) k
   \<or> (truthy (read_prop (heap w) (JRef d) k)
      \<and> (\<exists>b. map_of (entries (heap w') (JRef d)) k = Some (JRef b)
             \<and> length (heap w) \<le> b \<and> cipher (heap w') (JRef b)))"
  by (simp add: sealing_def)

lemma sealingI:
  assumes "working n (heap w') (JRef d)"
    and "length (heap w) \<le> length (heap w')"
    and "\<And>i. i < length (heap w) \<Longrightarrow> i \<noteq> d \<Longrightarrow> heap w' ! i = heap w ! i"
    and "map fst (entries (heap w') (JRef d)) = map fst (entries (heap w) (JRef d))"
    and "\<And>k. map_of (entries (heap w') (JRef d)) k = map_of (entries (heap w) (JRef d)) k
            \<or> (truthy (read_prop (heap w) (JRef d) k)
               \<and> (\<exists>b. map_of (entries (heap w') (JRef d)) k = Some (JRef b)
                      \<and> length (heap w) \<le> b \<and> cipher (heap w') (JRef b)))"
  shows "sealing n d w w'"
  unfolding sealing_def
  apply (intro conjI allI impI)
  apply (rule assms(1))
  apply (rule assms(2))
  apply (erule conjE, erule (1) assms(3))
  apply (rule assms(4))
  apply (rule assms(5))
  done

lemma sealing_refl: "working n (heap w) (JRef d) \<Longrightarrow> sealing n d w w"
  by (simp add: sealing_def)

lemma cipher_kept:
  assumes "cipher h (JRef b)" and "length h \<le> length h'" and "h' ! b = h ! b"
  shows "cipher h' (JRef b)"
  using assms by (simp add: cipher_def)

lemma sealing_trans:
  assumes "working n (heap w) (JRef d)" and "sealing n d w w1" and "sealing n d w1 w2"
  shows "sealing n d w w2"
proof (rule sealingI)
  have d: "d < length (heap w)" using assms(1) by (simp add: working_def)
  have w1: "working n (heap w1) (JRef d)" using assms(2) by (rule sealing_working)
  show "working n (heap w2) (JRef d)" using assms(3) by (rule sealing_working)
  show "length (heap w) \<le> length (heap w2)"
    using sealing_length [OF assms(2)] sealing_length [OF assms(3)] by simp
  show "heap w2 ! i = heap w ! i" if "i < length (heap w)" "i \<noteq> d" for i
    using that sealing_cells [OF assms(2), of i] sealing_cells [OF assms(3), of i]
      sealing_length [OF assms(2)] by simp
  show "map fst (entries (heap w2) (JRef d)) = map fst (entries (heap w) (JRef d))"
    using sealing_keys [OF assms(2)] sealing_keys [OF assms(3)] by simp
  show "map_of (entries (heap w2) (JRef d)) k = map_of (entries (heap w) (JRef d)) k
        \<or> (truthy (read_prop (heap w) (JRef d) k)
           \<and> (\<exists>b. map_of (entries (heap w2) (JRef d)) k = Some (JRef b)
                  \<and> length (heap w) \<le> b \<and> cipher (heap w2) (JRef b)))" for k
  proof -
    from sealing_value [OF assms(3), of k] show ?thesis
    proof
      assume same2: "map_of (entries (heap w2) (JRef d)) k = map_of (entries (heap w1) (JRef d)) k"
      from sealing_value [OF assms(2), of k] show ?thesis
      proof
        assume "map_of (entries (heap w1) (JRef d)) k = map_of (entries (heap w) (JRef d)) k"
        with same2 show ?thesis by simp
      next
        assume "truthy (read_prop (heap w) (JRef d) k)
           \<and> (\<exists>b. map_of (entries (heap w1) (JRef d)) k = Some (JRef b)
                  \<and> length (heap w) \<le> b \<and> cipher (heap w1) (JRef b))"
        then obtain b where t: "truthy (read_prop (heap w) (JRef d) k)"
          and m: "map_of (entries (heap w1) (JRef d)) k = Some (JRef b)"
          and b: "length (heap w) \<le> b" and c: "cipher (heap w1) (JRef b)"
          by blast
        have "b < length (heap w1)" using c by (simp add: cipher_def)
        moreover have "b \<noteq> d" using b d by simp
        ultimately have "heap w2 ! b = heap w1 ! b"
          using assms(3) by (simp add: sealing_cells)
        with c sealing_length [OF assms(3)] have "cipher (heap w2) (JRef b)"
          by (rule cipher_kept)
        with t m b same2 show ?thesis by simp
      qed
    next
      assume "truthy (read_prop (heap w1) (JRef d) k)
           \<and> (\<exists>b. map_of (entries (heap w2) (JRef d)) k = Some (JRef b)
                  \<and> length (heap w1) \<le> b \<and> cipher (heap w2) (JRef b))"
      then obtain b where t1: "truthy (read_prop (heap w1) (JRef d) k)"
        and m: "map_of (entries (heap w2) (JRef d)) k = Some (JRef b)"
        and b: "length (heap w1) \<le> b" and c: "cipher (heap w2) (JRef b)"
        by blast
      have b': "length (heap w) \<le> b" using b sealing_length [OF assms(2)] by simp
      have "truthy (read_prop (heap w) (JRef d) k)"
        using sealing_value [OF assms(2), of k] t1
        by (auto simp add: working_read_entries [OF assms(1)] working_read_entries [OF w1])
      with m b' c show ?thesis by blast
    qed
  qed
qed

lemma write_prop_same:
  assumes "working n h (JRef d)" and "map_of (entries h (JRef d)) k = Some v"
  shows "write_prop h d k v = h"
proof -
  have d: "d < length h" using assms(1) by (simp add: working_def)
  have "put k v (props (h ! d)) = props (h ! d)"
    using assms(2) by (simp add: working_entries [OF assms(1)] put_same)
  then show ?thesis
    using d by (simp add: write_prop_def cell_at_def)
qed

lemma truthy_present:
  assumes "working n h v" and "truthy (read_prop h v k)"
  shows "map_of (entries h v) k = Some (read_prop h v k)"
  using assms(2) by (cases "map_of (entries h v) k") (simp_all add: working_read_entries [OF assms(1)])

lemma encrypt_cipher:
  assumes "plaintext_of E (heap w) v = Some s"
  shows "\<exists>c. encrypt E w v f = (JRef (length (heap w)), \<lparr>heap = heap w @ [c], tick = tick w + 3\<rparr>)
             \<and> kind c = Plain \<and> hidden c = []
             \<and> map_of (props c) ''_encrypted'' = Some (JBool True)
             \<and> map_of (props c) ''length'' = None"
proof -
  have nn: "v \<noteq> JNull" "v \<noteq> JUndefined"
    using assms by (auto simp add: plaintext_of_def)
  have text_of: "(case v of JStr s \<Rightarrow> Some s | _ \<Rightarrow> json_stringify E (heap w) v) = Some s"
    using assms by (cases v) (simp_all add: plaintext_of_def)
  show ?thesis
    using nn text_of by (simp add: encrypt_def Let_def plain_def)
qed

text \<open>One iteration.\<close>

lemma encrypt_fields_step:
  assumes "working n (heap w) (JRef d)"
  shows "\<exists>w1. encrypt_fields E d (c # cs) w = encrypt_fields E d cs w1 \<and> sealing n d w w1"
proof -
  let ?cur = "read_prop (heap w) (JRef d) (field c)"
  have d: "n \<le> d" "d < length (heap w)" using assms by (simp_all add: working_def)
  show ?thesis
  proof (cases "encryptionRequired c = Some True \<and> truthy ?cur \<and> \<not> isEncrypted (heap w) ?cur")
    case False
    then have "encrypt_fields E d (c # cs) w = encrypt_fields E d cs w"
      by (auto simp add: Let_def)
    then show ?thesis using sealing_refl [OF assms] by blast
  next
    case True
    then have t: "truthy ?cur" by simp
    note present = truthy_present [OF assms t]
    show ?thesis
    proof (cases "plaintext_of E (heap w) ?cur")
      case None
      have "encrypt_fields E d (c # cs) w = encrypt_fields E d cs w"
        using True by (simp add: Let_def encrypt_no_text [OF None] write_prop_same [OF assms present])
      then show ?thesis using sealing_refl [OF assms] by blast
    next
      case (Some s)
      from encrypt_cipher [OF Some, of "field c"] obtain o' where
        e: "encrypt E w ?cur (field c)
            = (JRef (length (heap w)), \<lparr>heap = heap w @ [o'], tick = tick w + 3\<rparr>)"
        and o': "kind o' = Plain" "hidden o' = []"
          "map_of (props o') ''_encrypted'' = Some (JBool True)"
          "map_of (props o') ''length'' = None"
        by blast
      let ?h1 = "write_prop (heap w @ [o']) d (field c) (JRef (length (heap w)))"
      let ?w1 = "\<lparr>heap = ?h1, tick = tick w + 3\<rparr>"
      have step: "encrypt_fields E d (c # cs) w = encrypt_fields E d cs ?w1"
        using True by (simp add: Let_def e)
      have wa: "working n (heap w @ [o']) (JRef d)"
        using assms by (rule working_append)
      have w1: "working n ?h1 (JRef d)" using wa by (rule working_write)
      have es: "entries ?h1 (JRef d)
                = put (field c) (JRef (length (heap w))) (entries (heap w) (JRef d))"
        by (simp add: entries_write_same [OF wa]
              entries_append [OF working_store_value [OF assms]])
      have kin: "field c \<in> fst ` set (entries (heap w) (JRef d))"
        using present by (metis map_of_eq_None_iff option.distinct(1))
      have ci: "cipher ?h1 (JRef (length (heap w)))"
        using d o' by (simp add: cipher_def write_prop_def nth_append)
      have "sealing n d w ?w1"
      proof (rule sealingI)
        show "working n (heap ?w1) (JRef d)" using w1 by simp
        show "length (heap w) \<le> length (heap ?w1)" by simp
        show "heap ?w1 ! i = heap w ! i" if "i < length (heap w)" "i \<noteq> d" for i
          using that by (simp add: write_prop_def nth_append)
        show "map fst (entries (heap ?w1) (JRef d)) = map fst (entries (heap w) (JRef d))"
          using kin by (simp add: es put_keys)
        show "map_of (entries (heap ?w1) (JRef d)) k = map_of (entries (heap w) (JRef d)) k
              \<or> (truthy (read_prop (heap w) (JRef d) k)
                 \<and> (\<exists>b. map_of (entries (heap ?w1) (JRef d)) k = Some (JRef b)
                        \<and> length (heap w) \<le> b \<and> cipher (heap ?w1) (JRef b)))" for k
          using t ci by (cases "k = field c") (simp_all add: es put_map_of)
      qed
      with step show ?thesis by blast
    qed
  qed
qed

lemma encrypt_fields_run:
  "working n (heap w) (JRef d) \<Longrightarrow> sealing n d w (encrypt_fields E d cs w)"
proof (induction cs arbitrary: w)
  case Nil
  then show ?case by (simp add: sealing_refl)
next
  case (Cons c cs)
  from encrypt_fields_step [OF Cons.prems, of E c cs] obtain w1
    where s: "encrypt_fields E d (c # cs) w = encrypt_fields E d cs w1"
      and a: "sealing n d w w1"
    by blast
  have "sealing n d w1 (encrypt_fields E d cs w1)"
    using sealing_working [OF a] by (rule Cons.IH)
  with Cons.prems a show ?case unfolding s by (rule sealing_trans)
qed

subsection \<open>The whole of \<open>process\<close>\<close>

lemma map_of_filter_key:
  "map_of (filter (\<lambda>p. fst p \<noteq> key) ps) k = (if k = key then None else map_of ps k)"
  by (induction ps) auto

lemma attach_length [simp]: "length (define_hidden h a key v) = length h"
  by (simp add: define_hidden_def)

lemma attach_read:
  "working n h (JRef a) \<Longrightarrow> k \<noteq> key \<Longrightarrow>
   read_prop (define_hidden (h @ [c]) a key v) (JRef a) k = read_prop h (JRef a) k"
  by (simp add: working_def read_prop_def define_hidden_def cell_at_def nth_append Let_def
        elem_props_def map_of_filter_key map_add_def put_map_of split: option.split)

lemma attach_entries:
  "working n h (JRef a) \<Longrightarrow>
   entries (define_hidden (h @ [c]) a key v) (JRef a)
   = filter (\<lambda>p. fst p \<noteq> key) (entries h (JRef a))"
  by (simp add: working_def entries_def define_hidden_def cell_at_def nth_append elem_props_def)

lemma attach_other:
  "i < length h \<Longrightarrow> i \<noteq> a \<Longrightarrow> define_hidden (h @ [c]) a key v ! i = h ! i"
  by (simp add: define_hidden_def nth_append)

lemma attach_take:
  "n \<le> a \<Longrightarrow> n \<le> length h \<Longrightarrow> take n (define_hidden (h @ [c]) a key v) = take n h"
  by (simp add: define_hidden_def)

lemma warnings_distinct:
  "weak_password_warning \<noteq> missing_consent_warning"
  "weak_password_warning \<noteq> pii_warning m"
  "missing_consent_warning \<noteq> pii_warning m"
  by (simp_all add: weak_password_warning_def missing_consent_warning_def pii_warning_def)

lemma checkForWarnings_ref:
  "\<exists>ws. checkForWarnings E h (JRef a) = Inr ws
     \<and> (weak_password_warning \<in> set ws \<longleftrightarrow>
          truthy (read_prop h (JRef a) ''password'')
          \<and> less_than E h (read_prop h (read_prop h (JRef a) ''password'') ''length'') 12)
     \<and> (missing_consent_warning \<in> set ws \<longleftrightarrow>
          \<not> truthy (read_prop h (JRef a) ''_complianceConsent''))"
  by (simp add: checkForWarnings_def get_def classifyData_def Let_def warnings_distinct
        warnings_distinct [symmetric])

lemma autoEncrypt_run:
  "autoEncryptSensitiveFields E w pd cs
   = (JRef (length (heap w)),
      encrypt_fields E (length (heap w)) cs (w\<lparr>heap := heap w @ [plain (entries (heap w) pd)]\<rparr>))"
  by (simp add: autoEncryptSensitiveFields_def spread_def)

text \<open>
  The phases of a call: the copy and the laws, the encryption on a further copy, the
  attached metadata and the warnings.
\<close>

lemma process_run:
  fixes w :: world and data :: jsval and ctx :: proc_context
  defines "n \<equiv> length (heap w)"
  defines "w0 \<equiv> \<lparr>heap = heap w @ [plain (entries (heap w) data)], tick = tick w + 2\<rparr>"
  defines "ls \<equiv> determineApplicableLaws ctx"
  shows "\<exists>pd1 acts1 w1 a w2 acts2 att ws.
      apply_laws E ctx ls (JRef n) w0 = Inr ((pd1, acts1), w1)
    \<and> advance n w0 (JRef n) w1 pd1
    \<and> settled ctx ls (heap w1) pd1
    \<and> (settled ctx ls (heap w0) (JRef n) \<longrightarrow>
         entries (heap w1) pd1 = entries (heap w0) (JRef n)
         \<and> set acts1 \<subseteq> {''gdpr_data_minimization_applied''})
    \<and> (if autoEncrypt cfg = JBool False then w2 = w1 \<and> JRef a = pd1 \<and> acts2 = acts1
        else a = length (heap w1)
             \<and> w2 = encrypt_fields E a
                      (map (\<lambda>fv. classify_entry (fst fv))
                         (filter (\<lambda>fv. snd fv \<noteq> JUndefined \<and> snd fv \<noteq> JNull)
                            (entries (heap w1) pd1)))
                      (w1\<lparr>heap := heap w1 @ [plain (entries (heap w1) pd1)]\<rparr>)
             \<and> acts2 = acts1 @ (if JRef a \<noteq> data then [''sensitive_fields_encrypted''] else []))
    \<and> working n (heap w2) (JRef a)
    \<and> checkForWarnings E (define_hidden (heap w2 @ [att]) a ''_compliance'' (JRef (length (heap w2))))
          (JRef a) = Inr ws
    \<and> process E cfg w data ctx
        = Inr (\<lparr>rdata = JRef a,
                 compliance = \<lparr>processedAt = clock E (tick w + 1), applicableLaws = ls,
                                actions = acts2, dataRights = getDataRights ls\<rparr>,
                 warnings = ws,
                 processingTime = clock E (tick w2 + 1) - clock E (tick w)\<rparr>,
               \<lparr>heap = define_hidden (heap w2 @ [att]) a ''_compliance'' (JRef (length (heap w2))),
                tick = tick w2 + 2\<rparr>)"
proof -
  have p0: "working n (heap w0) (JRef n)"
    by (simp add: working_def w0_def n_def plain_def)
  from apply_laws_run [OF p0, of E ctx ls] obtain pd1 acts1 w1
    where r1: "apply_laws E ctx ls (JRef n) w0 = Inr ((pd1, acts1), w1)"
      and a1: "advance n w0 (JRef n) w1 pd1"
      and m1: "settled ctx ls (heap w1) pd1"
      and s1: "settled ctx ls (heap w0) (JRef n) \<longrightarrow>
                 entries (heap w1) pd1 = entries (heap w0) (JRef n)
                 \<and> set acts1 \<subseteq> {''gdpr_data_minimization_applied''}"
    by blast
  have p1: "working n (heap w1) pd1" using a1 by (rule advance_working)
  from working_ref [OF p1] obtain a1' where pd1: "pd1 = JRef a1'" by blast
  define cs where "cs = map (\<lambda>fv. classify_entry (fst fv))
                         (filter (\<lambda>fv. snd fv \<noteq> JUndefined \<and> snd fv \<noteq> JNull)
                            (entries (heap w1) pd1))"
  have cd: "classifyData (heap w1) pd1 = Inr cs"
    by (simp add: classifyData_def pd1 cs_def)
  define a where "a = (if autoEncrypt cfg = JBool False then a1' else length (heap w1))"
  define w2 where "w2 = (if autoEncrypt cfg = JBool False then w1
     else encrypt_fields E (length (heap w1)) cs
            (w1\<lparr>heap := heap w1 @ [plain (entries (heap w1) pd1)]\<rparr>))"
  define acts2 where "acts2 = (if autoEncrypt cfg = JBool False then acts1
     else acts1 @ (if JRef (length (heap w1)) \<noteq> data then [''sensitive_fields_encrypted''] else []))"
  have p2: "working n (heap w2) (JRef a)"
  proof (cases "autoEncrypt cfg = JBool False")
    case True
    then show ?thesis using p1 by (simp add: w2_def a_def pd1)
  next
    case False
    have "n \<le> length (heap w1)" using p1 by (simp add: pd1 working_def)
    then have "working n (heap (w1\<lparr>heap := heap w1 @ [plain (entries (heap w1) pd1)]\<rparr>))
                 (JRef (length (heap w1)))"
      by (simp add: working_def plain_def)
    from encrypt_fields_run [OF this, of E cs] show ?thesis
      using False by (simp add: w2_def a_def sealing_working)
  qed
  define att where "att = \<lparr>props = [], hidden = [],
      kind = Attached (compliance_meta.extend
               \<lparr>processedAt = clock E (tick w + 1), applicableLaws = ls, actions = acts2,
                dataRights = getDataRights ls\<rparr>
               (compliance_attached.fields cs (clock E (tick w2) - clock E (tick w))))\<rparr>"
  from checkForWarnings_ref [of E "define_hidden (heap w2 @ [att]) a ''_compliance''
      (JRef (length (heap w2)))" a]
  obtain ws where ws: "checkForWarnings E
      (define_hidden (heap w2 @ [att]) a ''_compliance'' (JRef (length (heap w2)))) (JRef a) = Inr ws"
    by blast
  have run: "process E cfg w data ctx
        = Inr (\<lparr>rdata = JRef a,
                 compliance = \<lparr>processedAt = clock E (tick w + 1), applicableLaws = ls,
                                actions = acts2, dataRights = getDataRights ls\<rparr>,
                 warnings = ws,
                 processingTime = clock E (tick w2 + 1) - clock E (tick w)\<rparr>,
               \<lparr>heap = define_hidden (heap w2 @ [att]) a ''_compliance'' (JRef (length (heap w2))),
                tick = tick w2 + 2\<rparr>)"
  proof (cases "autoEncrypt cfg = JBool False")
    case True
    with ws have "checkForWarnings E
      (define_hidden (heap w1 @ [att]) a1' ''_compliance'' (JRef (length (heap w1)))) (JRef a1') = Inr ws"
      by (simp add: w2_def a_def)
    then show ?thesis
      using True r1 [unfolded w0_def n_def ls_def] cd
      by (simp add: process_def Let_def spread_def pd1 w2_def a_def acts2_def
            att_def [unfolded w2_def acts2_def] ls_def)
  next
    case False
    with ws have "checkForWarnings E
      (define_hidden (heap w2 @ [att]) (length (heap w1)) ''_compliance'' (JRef (length (heap w2))))
        (JRef (length (heap w1))) = Inr ws"
      by (simp add: a_def)
    then show ?thesis
      using False r1 [unfolded w0_def n_def ls_def] cd
      by (simp add: process_def Let_def spread_def autoEncrypt_run a_def acts2_def
            att_def [unfolded acts2_def] ls_def flip: w2_def [unfolded if_not_P [OF False]])
  qed
  have enc: "if autoEncrypt cfg = JBool False then w2 = w1 \<and> JRef a = pd1 \<and> acts2 = acts1
        else a = length (heap w1)
             \<and> w2 = encrypt_fields E a
                      (map (\<lambda>fv. classify_entry (fst fv))
                         (filter (\<lambda>fv. snd fv \<noteq> JUndefined \<and> snd fv \<noteq> JNull)
                            (entries (heap w1) pd1)))
                      (w1\<lparr>heap := heap w1 @ [plain (entries (heap w1) pd1)]\<rparr>)
             \<and> acts2 = acts1 @ (if JRef a \<noteq> data then [''sensitive_fields_encrypted''] else [])"
    by (simp add: w2_def a_def acts2_def pd1 cs_def)
  show ?thesis
    apply (rule exI [of _ pd1], rule exI [of _ acts1], rule exI [of _ w1], rule exI [of _ a])
    apply (rule exI [of _ w2], rule exI [of _ acts2], rule exI [of _ att], rule exI [of _ ws])
    apply (intro conjI)
    apply (rule r1)
    apply (rule a1)
    apply (rule m1)
    apply (rule s1)
    apply (rule enc)
    apply (rule p2)
    apply (rule ws)
    apply (rule run)
    done
qed

lemma sealing_take:
  assumes "sealing n d w w'" and "working n (heap w) (JRef d)"
  shows "take n (heap w') = take n (heap w)"
proof (rule nth_take_lemma)
  have d: "n \<le> d" "d < length (heap w)" using assms(2) by (simp_all add: working_def)
  show "n \<le> length (heap w')" using d sealing_length [OF assms(1)] by simp
  show "n \<le> length (heap w)" using d by simp
  show "i < n \<longrightarrow> heap w' ! i = heap w ! i" for i
    using d by (auto intro: sealing_cells [OF assms(1)])
qed

lemma working_own: "working n h v \<Longrightarrow> read_prop h v k = own h v k"
  by (simp add: own_def working_read_entries)

text \<open>
  What a call of \<open>process\<close> comes to: it returns; the store it was given is an initial
  segment of the store it leaves; the record returned is a new object; the two warnings
  are decided on that record; and a property of the input other than the metadata keys and
  \<open>gps\<close> is on the record with its value, or with an encrypted field in its place.
\<close>

lemma process_summary:
  fixes w :: world
  shows "\<exists>r w' a. process E cfg w data ctx = Inr (r, w')
    \<and> take (length (heap w)) (heap w') = heap w
    \<and> rdata r = JRef a \<and> length (heap w) \<le> a \<and> a < length (heap w')
    \<and> (weak_password_warning \<in> set (warnings r) \<longleftrightarrow>
          truthy (read_prop (heap w') (JRef a) ''password'')
          \<and> less_than E (heap w')
               (read_prop (heap w') (read_prop (heap w') (JRef a) ''password'') ''length'') 12)
    \<and> (missing_consent_warning \<in> set (warnings r) \<longleftrightarrow>
          \<not> truthy (read_prop (heap w') (JRef a) ''_complianceConsent''))
    \<and> (\<forall>k. k \<notin> {''_consent'', ''_deletionMetadata'', ''_ccpaRights'', ''gps'', ''_compliance''} \<longrightarrow>
          read_prop (heap w') (JRef a) k = own (heap w) data k
          \<or> (autoEncrypt cfg \<noteq> JBool False \<and> truthy (own (heap w) data k)
              \<and> cipher (heap w') (read_prop (heap w') (JRef a) k)))
    \<and> (''GDPR'' \<in> set (determineApplicableLaws ctx) \<longrightarrow>
          truthy (read_prop (heap w') (JRef a) ''_consent''))"
proof -
  let ?n = "length (heap w)"
  let ?w0 = "\<lparr>heap = heap w @ [plain (entries (heap w) data)], tick = tick w + 2\<rparr>"
  let ?ls = "determineApplicableLaws ctx"
  from process_run [of E ctx w data cfg] obtain pd1 acts1 w1 a w2 acts2 att ws
    where a1: "advance ?n ?w0 (JRef ?n) w1 pd1"
      and m1: "settled ctx ?ls (heap w1) pd1"
      and enc: "if autoEncrypt cfg = JBool False then w2 = w1 \<and> JRef a = pd1 \<and> acts2 = acts1
        else a = length (heap w1)
             \<and> w2 = encrypt_fields E a
                      (map (\<lambda>fv. classify_entry (fst fv))
                         (filter (\<lambda>fv. snd fv \<noteq> JUndefined \<and> snd fv \<noteq> JNull)
                            (entries (heap w1) pd1)))
                      (w1\<lparr>heap := heap w1 @ [plain (entries (heap w1) pd1)]\<rparr>)
             \<and> acts2 = acts1 @ (if JRef a \<noteq> data then [''sensitive_fields_encrypted''] else [])"
      and p2: "working ?n (heap w2) (JRef a)"
      and ws: "checkForWarnings E
                 (define_hidden (heap w2 @ [att]) a ''_compliance'' (JRef (length (heap w2))))
                 (JRef a) = Inr ws"
      and run: "process E cfg w data ctx
        = Inr (\<lparr>rdata = JRef a,
                 compliance = \<lparr>processedAt = clock E (tick w + 1), applicableLaws = ?ls,
                                actions = acts2, dataRights = getDataRights ?ls\<rparr>,
                 warnings = ws,
                 processingTime = clock E (tick w2 + 1) - clock E (tick w)\<rparr>,
               \<lparr>heap = define_hidden (heap w2 @ [att]) a ''_compliance'' (JRef (length (heap w2))),
                tick = tick w2 + 2\<rparr>)"
    by blast
  let ?h3 = "define_hidden (heap w2 @ [att]) a ''_compliance'' (JRef (length (heap w2)))"
  have p0: "working ?n (heap ?w0) (JRef ?n)"
    by (simp add: working_def plain_def)
  have p1: "working ?n (heap w1) pd1" using a1 by (rule advance_working)
  have e0: "entries (heap w @ [plain (entries (heap w) data)]) (JRef ?n) = entries (heap w) data"
    by (simp add: entries_def cell_at_def plain_def elem_props_def)
  have na: "?n \<le> a" "a < length (heap w2)" using p2 by (simp_all add: working_def)
  \<comment> \<open>the store\<close>
  have t1: "take ?n (heap w1) = heap w"
    using advance_take [OF a1] by simp
  have t2: "take ?n (heap w2) = heap w"
  proof (cases "autoEncrypt cfg = JBool False")
    case True
    with enc t1 show ?thesis by simp
  next
    case False
    let ?wl = "w1\<lparr>heap := heap w1 @ [plain (entries (heap w1) pd1)]\<rparr>"
    have l1: "?n \<le> length (heap w1)" using p1 working_ref [OF p1] by (auto simp add: working_def)
    have pl: "working ?n (heap ?wl) (JRef (length (heap w1)))"
      using l1 by (simp add: working_def plain_def)
    have "sealing ?n (length (heap w1)) ?wl w2"
      using enc False encrypt_fields_run [OF pl, of E] by simp
    from sealing_take [OF this pl] l1 t1 show ?thesis by simp
  qed
  have t3: "take ?n ?h3 = heap w"
    using na t2 by (simp add: attach_take)
  \<comment> \<open>the values\<close>
  have v1: "own (heap w1) pd1 k = own (heap w) data k"
    if "k \<notin> {''_consent'', ''_deletionMetadata'', ''_ccpaRights'', ''gps''}" for k
    using advance_other [OF a1 that] by (simp add: own_def e0)
  have r3: "read_prop ?h3 (JRef a) k = own (heap w2) (JRef a) k" if "k \<noteq> ''_compliance''" for k
    using that by (simp add: attach_read [OF p2] working_own [OF p2])
  have v2: "own (heap w2) (JRef a) k = own (heap w1) pd1 k
            \<or> (autoEncrypt cfg \<noteq> JBool False \<and> truthy (own (heap w1) pd1 k)
                \<and> cipher ?h3 (own (heap w2) (JRef a) k))" for k
  proof (cases "autoEncrypt cfg = JBool False")
    case True
    with enc show ?thesis by simp
  next
    case False
    let ?wl = "w1\<lparr>heap := heap w1 @ [plain (entries (heap w1) pd1)]\<rparr>"
    have l1: "?n \<le> length (heap w1)" using p1 working_ref [OF p1] by (auto simp add: working_def)
    have pl: "working ?n (heap ?wl) (JRef (length (heap w1)))"
      using l1 by (simp add: working_def plain_def)
    have al: "a = length (heap w1)" using enc False by simp
    have pl': "working ?n (heap w1 @ [plain (entries (heap w1) pd1)]) (JRef (length (heap w1)))"
      using pl by simp
    have el: "entries (heap w1 @ [plain (entries (heap w1) pd1)]) (JRef (length (heap w1)))
              = entries (heap w1) pd1"
      by (simp add: entries_def cell_at_def plain_def elem_props_def)
    have s: "sealing ?n a ?wl w2"
      using enc False encrypt_fields_run [OF pl, of E] by simp
    from sealing_value [OF s, of k] show ?thesis
    proof
      assume "map_of (entries (heap w2) (JRef a)) k = map_of (entries (heap ?wl) (JRef a)) k"
      then show ?thesis by (simp add: own_def al el)
    next
      assume "truthy (read_prop (heap ?wl) (JRef a) k)
        \<and> (\<exists>b. map_of (entries (heap w2) (JRef a)) k = Some (JRef b)
               \<and> length (heap ?wl) \<le> b \<and> cipher (heap w2) (JRef b))"
      then obtain b where t: "truthy (read_prop (heap ?wl) (JRef a) k)"
        and m: "map_of (entries (heap w2) (JRef a)) k = Some (JRef b)"
        and b: "length (heap ?wl) \<le> b" and c: "cipher (heap w2) (JRef b)"
        by blast
      have t': "truthy (own (heap w1) pd1 k)"
        using t unfolding al by (simp add: working_own [OF pl'] own_def el)
      have bl: "b < length (heap w2)" using c by (simp add: cipher_def)
      have "b \<noteq> a" using b al by simp
      with bl have "?h3 ! b = heap w2 ! b" by (simp add: attach_other)
      with c have "cipher ?h3 (JRef b)" by (intro cipher_kept [OF c]) simp_all
      with t' m False show ?thesis by (simp add: own_def)
    qed
  qed
  have v3: "read_prop ?h3 (JRef a) k = own (heap w) data k
          \<or> (autoEncrypt cfg \<noteq> JBool False \<and> truthy (own (heap w) data k)
              \<and> cipher ?h3 (read_prop ?h3 (JRef a) k))"
    if "k \<notin> {''_consent'', ''_deletionMetadata'', ''_ccpaRights'', ''gps'', ''_compliance''}" for k
  proof -
    from that have k: "k \<notin> {''_consent'', ''_deletionMetadata'', ''_ccpaRights'', ''gps''}"
      and k': "k \<noteq> ''_compliance''" by simp_all
    show ?thesis using v2 [of k] by (simp only: r3 [OF k'] v1 [OF k])
  qed
  \<comment> \<open>the consent record\<close>
  have c3: "truthy (read_prop ?h3 (JRef a) ''_consent'')" if "''GDPR'' \<in> set ?ls"
  proof -
    from m1 that have "truthy (read_prop (heap w1) pd1 ''_consent'')"
      by (auto simp add: settled_def law_met_def)
    then have "truthy (own (heap w1) pd1 ''_consent'')" by (simp add: working_own [OF p1])
    with v2 [of "''_consent''"] have "truthy (own (heap w2) (JRef a) ''_consent'')"
      by (auto simp add: cipher_def split: jsval.splits)
    then show ?thesis by (simp add: r3)
  qed
  from checkForWarnings_ref [of E ?h3 a] ws
  have wk: "weak_password_warning \<in> set ws \<longleftrightarrow>
          truthy (read_prop ?h3 (JRef a) ''password'')
          \<and> less_than E ?h3 (read_prop ?h3 (read_prop ?h3 (JRef a) ''password'') ''length'') 12"
    and ms: "missing_consent_warning \<in> set ws \<longleftrightarrow>
          \<not> truthy (read_prop ?h3 (JRef a) ''_complianceConsent'')"
    by auto
  show ?thesis
    apply (rule exI, rule exI, rule exI [of _ a])
    apply (rule conjI, rule run)
    apply (simp only: world.simps result.simps)
    apply (intro conjI allI impI)
    apply (rule t3)
    apply (rule refl)
    apply (rule na(1))
    apply (insert na(2), simp) [1]
    apply (rule wk)
    apply (rule ms)
    apply (erule v3)
    apply (erule c3)
    done
qed

lemma gdpr_applies: "''GDPR'' \<in> set (determineApplicableLaws ctx)"
  by (simp add: determineApplicableLaws_def Let_def split: option.split)




lemma cipher_truthy: "cipher h v \<Longrightarrow> truthy v"
  by (cases v) (simp_all add: cipher_def)


section \<open>Copies and updates in place\<close>




section \<open>Warnings\<close>

text \<open>
  C5 against the code. \<open>process\<close> always returns, and the record it returns always has a
  consent entry under \<open>_consent\<close> (GDPR is among the laws of every context, and its pass
  records consent where there is none). The missing-consent warning does not look at that
  entry: it is emitted exactly when the caller's record has no truthy own property
  \<open>_complianceConsent\<close>, a property that no function of the library writes. So the
  warning is emitted although consent has been recorded on the output record.
\<close>

theorem missing_consent_warning_ignores_recorded_consent:
  fixes w :: world
  shows "\<exists>r w' a. process E cfg w data ctx = Inr (r, w') \<and> rdata r = JRef a
           \<and> truthy (read_prop (heap w') (JRef a) ''_consent'')
           \<and> (missing_consent_warning \<in> set (warnings r)
                \<longleftrightarrow> \<not> truthy (own (heap w) data ''_complianceConsent''))"
proof -
  from process_summary [of E cfg w data ctx] obtain r w' a
    where run: "process E cfg w data ctx = Inr (r, w')" and a: "rdata r = JRef a"
      and ms: "missing_consent_warning \<in> set (warnings r) \<longleftrightarrow>
                 \<not> truthy (read_prop (heap w') (JRef a) ''_complianceConsent'')"
      and v: "\<forall>k. k \<notin> {''_consent'', ''_deletionMetadata'', ''_ccpaRights'', ''gps'', ''_compliance''} \<longrightarrow>
          read_prop (heap w') (JRef a) k = own (heap w) data k
          \<or> (autoEncrypt cfg \<noteq> JBool False \<and> truthy (own (heap w) data k)
              \<and> cipher (heap w') (read_prop (heap w') (JRef a) k))"
      and c: "''GDPR'' \<in> set (determineApplicableLaws ctx) \<longrightarrow>
          truthy (read_prop (heap w') (JRef a) ''_consent'')"
    by (elim exE conjE) (rule that)
  have "read_prop (heap w') (JRef a) ''_complianceConsent'' = own (heap w) data ''_complianceConsent''
          \<or> (autoEncrypt cfg \<noteq> JBool False \<and> truthy (own (heap w) data ''_complianceConsent'')
              \<and> cipher (heap w') (read_prop (heap w') (JRef a) ''_complianceConsent''))"
    by (rule v [rule_format]) simp
  then have same: "truthy (read_prop (heap w') (JRef a) ''_complianceConsent'')
                   \<longleftrightarrow> truthy (own (heap w) data ''_complianceConsent'')"
    by (auto dest: cipher_truthy)
  have cons: "truthy (read_prop (heap w') (JRef a) ''_consent'')"
    using c gdpr_applies by simp
  have warn: "missing_consent_warning \<in> set (warnings r)
                \<longleftrightarrow> \<not> truthy (own (heap w) data ''_complianceConsent'')"
    using ms same by simp
  from run a cons warn show ?thesis by (intro exI conjI)
qed

text \<open>
  The theorem on the guest record, in Germany: consent is recorded on the output record,
  and the warning is emitted.
\<close>

theorem missing_consent_warning_ignores_recorded_consent_witness:
  "\<exists>r w' a. process sample_env default_config (world_of guest_store) (JRef 0) (ctx_of (Some ''DE''))
               = Inr (r, w') \<and> rdata r = JRef a
           \<and> truthy (read_prop (heap w') (JRef a) ''_consent'')
           \<and> missing_consent_warning \<in> set (warnings r)"
proof -
  have "\<not> truthy (own (heap (world_of guest_store)) (JRef 0) ''_complianceConsent'')"
    by (simp add: own_def world_of_def guest_store_def entries_def cell_at_def plain_def
          elem_props_def)
  with missing_consent_warning_ignores_recorded_consent
         [of sample_env default_config "world_of guest_store" "JRef 0" "ctx_of (Some ''DE'')"]
  show ?thesis by auto
qed




end
